theory Spec2Isabelle
  imports Main "HOL-Library.AList" "HOL-Library.Sublist"
begin

section \<open>Grid state (gridManager.js)\<close>

text \<open>
  A slot of the grid holds a course code or \<open>null\<close>. Reading an array past its end (or a
  hole left by a write past its end) gives \<open>undefined\<close>, which is neither a code nor
  \<open>null\<close>, so it is a value of its own.
\<close>

datatype slot = Null | Undefined | Code string

datatype error = TypeError

text \<open>
  \<open>this.state\<close> is an object from semester id to an array of slots: an association list in
  insertion order (the order of \<open>Object.entries\<close> for ids such as \<open>fall-1\<close>), read with
  \<open>map_of\<close> and written with \<open>AList.update\<close> (in place for a known key, appended for a
  new one). Each semester has an array of its own, so a write to one is not seen in another.
\<close>

type_synonym grid = "(string \<times> slot list) list"

definition slotsPerSemester :: nat where
  "slotsPerSemester = 5"

text \<open>\<open>arr[i]\<close> for an array index \<open>i\<close>: \<open>undefined\<close> out of range.\<close>

definition readSlot :: "slot list \<Rightarrow> nat \<Rightarrow> slot" where
  "readSlot slots i = (if i < length slots then slots ! i else Undefined)"

text \<open>\<open>arr[i] = v\<close>: a write past the end extends the array, leaving holes.\<close>

definition writeSlot :: "slot list \<Rightarrow> nat \<Rightarrow> slot \<Rightarrow> slot list" where
  "writeSlot slots i v =
     (if i < length slots then slots[i := v]
      else slots @ replicate (i - length slots) Undefined @ [v])"

text \<open>\<open>initSemesters(semesterIds)\<close>\<close>

fun initSemesters :: "grid \<Rightarrow> string list \<Rightarrow> grid" where
  "initSemesters g [] = g"
| "initSemesters g (semId # ids) =
     initSemesters (AList.update semId (replicate slotsPerSemester Null) g) ids"

text \<open>\<open>Array.prototype.indexOf\<close>: the first index, \<open>-1\<close> when absent.\<close>

fun indexOf :: "'a list \<Rightarrow> 'a \<Rightarrow> int" where
  "indexOf [] x = -1"
| "indexOf (y # ys) x =
     (if y = x then 0 else (let r = indexOf ys x in if r = -1 then -1 else r + 1))"

text \<open>\<open>findCourse(courseCode)\<close>: the first semester (in key order) holding the code.\<close>

fun findCourse :: "grid \<Rightarrow> string \<Rightarrow> (string \<times> int) option" where
  "findCourse [] courseCode = None"
| "findCourse ((semId, slots) # rest) courseCode =
     (let idx = indexOf slots (Code courseCode)
      in if idx \<noteq> -1 then Some (semId, idx) else findCourse rest courseCode)"

text \<open>
  The operations return what the call gives (a value, or the \<open>TypeError\<close> of reading a
  property of \<open>undefined\<close> when the semester id is not a key) together with the state the
  object is left in.
\<close>

definition addCourse :: "grid \<Rightarrow> string \<Rightarrow> nat \<Rightarrow> string \<Rightarrow> (error + bool) \<times> grid" where
  "addCourse g semesterId slotIndex courseCode =
     (if findCourse g courseCode \<noteq> None then (Inr False, g)
      else case map_of g semesterId of
             None \<Rightarrow> (Inl TypeError, g)
           | Some slots \<Rightarrow>
               if readSlot slots slotIndex \<noteq> Null then (Inr False, g)
               else (Inr True,
                     AList.update semesterId (writeSlot slots slotIndex (Code courseCode)) g))"

definition removeCourse :: "grid \<Rightarrow> string \<Rightarrow> nat \<Rightarrow> (error + unit) \<times> grid" where
  "removeCourse g semesterId slotIndex =
     (case map_of g semesterId of
        None \<Rightarrow> (Inl TypeError, g)
      | Some slots \<Rightarrow> (Inr (), AList.update semesterId (writeSlot slots slotIndex Null) g))"

definition moveCourse ::
  "grid \<Rightarrow> string \<Rightarrow> nat \<Rightarrow> string \<Rightarrow> nat \<Rightarrow> (error + unit) \<times> grid" where
  "moveCourse g fromSemester fromSlot toSemester toSlot =
     (case map_of g fromSemester of
        None \<Rightarrow> (Inl TypeError, g)
      | Some fromSlots \<Rightarrow>
          (let code = readSlot fromSlots fromSlot;
               g1 = AList.update fromSemester (writeSlot fromSlots fromSlot Null) g
           in case map_of g1 toSemester of
                None \<Rightarrow> (Inl TypeError, g1)
              | Some toSlots \<Rightarrow>
                  (Inr (), AList.update toSemester (writeSlot toSlots toSlot code) g1)))"

text \<open>
  The inner loop \<open>for (const code of slots) if (code) completed.add(code)\<close>: a slot
  value is truthy when it is a non-empty string.
\<close>

fun addCodes :: "string set \<Rightarrow> slot list \<Rightarrow> string set" where
  "addCodes completed [] = completed"
| "addCodes completed (Code c # slots) =
     addCodes (if c \<noteq> [] then insert c completed else completed) slots"
| "addCodes completed (_ # slots) = addCodes completed slots"

text \<open>
  The outer loop over \<open>semesterOrder[i]\<close>; iterating \<open>this.state[id]\<close> for an id that is
  not a key throws.
\<close>

fun addSemesters :: "grid \<Rightarrow> string set \<Rightarrow> string list \<Rightarrow> error + string set" where
  "addSemesters g completed [] = Inr completed"
| "addSemesters g completed (semId # ids) =
     (case map_of g semId of
        None \<Rightarrow> Inl TypeError
      | Some slots \<Rightarrow> addSemesters g (addCodes completed slots) ids)"

text \<open>\<open>for (let i = 0; i < targetIdx; i++)\<close> visits the first \<open>targetIdx\<close> ids (none for -1).\<close>

definition getCoursesBeforeSemester :: "grid \<Rightarrow> string \<Rightarrow> string list \<Rightarrow> error + string set" where
  "getCoursesBeforeSemester g semesterId semesterOrder =
     (let targetIdx = indexOf semesterOrder semesterId
      in addSemesters g {} (take (nat targetIdx) semesterOrder))"

text \<open>\<open>for (let i = 0; i <= targetIdx; i++)\<close>\<close>

definition getCoursesUpToSemester :: "grid \<Rightarrow> string \<Rightarrow> string list \<Rightarrow> error + string set" where
  "getCoursesUpToSemester g semesterId semesterOrder =
     (let targetIdx = indexOf semesterOrder semesterId
      in addSemesters g {} (take (nat (targetIdx + 1)) semesterOrder))"

text \<open>\<open>getAllPlacedCourses()\<close>: every array of the state, in key order.\<close>

definition getAllPlacedCourses :: "grid \<Rightarrow> string set" where
  "getAllPlacedCourses g = foldl addCodes {} (map snd g)"

text \<open>What \<open>this.state[semesterId][slotIndex]\<close> reads, when the semester is a key.\<close>

definition slotAt :: "grid \<Rightarrow> string \<Rightarrow> nat \<Rightarrow> slot option" where
  "slotAt g semesterId slotIndex =
     (case map_of g semesterId of None \<Rightarrow> None | Some slots \<Rightarrow> Some (readSlot slots slotIndex))"

text \<open>
  The states of a session: a fresh manager (\<open>this.state = {}\<close>) initialised once, then any
  calls of the three mutators, each leaving the state it leaves (also when it throws).
\<close>

inductive reachable :: "grid \<Rightarrow> bool" where
  r_init: "reachable (initSemesters [] ids)"
| r_add: "reachable g \<Longrightarrow> reachable (snd (addCourse g semesterId slotIndex courseCode))"
| r_remove: "reachable g \<Longrightarrow> reachable (snd (removeCourse g semesterId slotIndex))"
| r_move: "reachable g \<Longrightarrow>
     reachable (snd (moveCourse g fromSemester fromSlot toSemester toSlot))"

text \<open>Each course code occupies at most one slot of the whole grid.\<close>

definition placedOnce :: "grid \<Rightarrow> bool" where
  "placedOnce g \<longleftrightarrow>
     (\<forall>c s1 i1 s2 i2. slotAt g s1 i1 = Some (Code c) \<and> slotAt g s2 i2 = Some (Code c)
        \<longrightarrow> s1 = s2 \<and> i1 = i2)"

section \<open>Expression parser (dependencyGraph.js)\<close>

subsection \<open>String primitives\<close>

text \<open>
  \<open>String.prototype.trim\<close> strips white space and line terminators from both ends; among
  the ASCII characters, of which the catalog's strings are made, these are space, tab, LF,
  VT, FF and CR.
\<close>

definition isSpace :: "char \<Rightarrow> bool" where
  "isSpace c \<longleftrightarrow> c \<in> set [CHR '' '', CHR 0x09, CHR 0x0A, CHR 0x0B, CHR 0x0C, CHR 0x0D]"

definition trim :: "string \<Rightarrow> string" where
  "trim s = rev (dropWhile isSpace (rev (dropWhile isSpace s)))"

text \<open>\<open>s.includes(sep)\<close>: \<open>sep\<close> starts at some position of \<open>s\<close>.\<close>

fun includesStr :: "string \<Rightarrow> string \<Rightarrow> bool" where
  "includesStr [] sep = (sep = [])"
| "includesStr (c # cs) sep = (prefix sep (c # cs) \<or> includesStr cs sep)"

text \<open>
  \<open>s.split(sep)\<close> for a non-empty separator: scan from the left, cut at each occurrence
  and resume after it. \<open>part\<close> is the piece read since the last cut.
\<close>

function splitFrom :: "string \<Rightarrow> string \<Rightarrow> string \<Rightarrow> string list" where
  "splitFrom part [] sep = [part]"
| "splitFrom part (c # cs) sep =
     (if sep \<noteq> [] \<and> prefix sep (c # cs)
      then part # splitFrom [] (drop (length sep) (c # cs)) sep
      else splitFrom (part @ [c]) cs sep)"
  by pat_completeness auto
termination
  by (relation "measure (\<lambda>(part, s, sep). length s)") auto

definition splitStr :: "string \<Rightarrow> string \<Rightarrow> string list" where
  "splitStr s sep = splitFrom [] s sep"

text \<open>
  The courseset reference pattern \<^verbatim>\<open>/^[A-Z]{2,4}\d{3}[HY]\d_[pce]\d+$/\<close>. Letters and digits
  are disjoint classes, so the letter group is the whole leading run of capitals.
\<close>

definition isUpper :: "char \<Rightarrow> bool" where
  "isUpper c \<longleftrightarrow> c \<in> set ''ABCDEFGHIJKLMNOPQRSTUVWXYZ''"

definition isDigit :: "char \<Rightarrow> bool" where
  "isDigit c \<longleftrightarrow> c \<in> set ''0123456789''"

definition isCoursesetRef :: "string \<Rightarrow> bool" where
  "isCoursesetRef token =
     (let letters = takeWhile isUpper token; rest = dropWhile isUpper token
      in 2 \<le> length letters \<and> length letters \<le> 4 \<and>
         (case rest of
            d1 # d2 # d3 # hy # d4 # us # ty # num \<Rightarrow>
              isDigit d1 \<and> isDigit d2 \<and> isDigit d3 \<and> hy \<in> set ''HY'' \<and> isDigit d4 \<and>
              us = CHR ''_'' \<and> ty \<in> set ''pce'' \<and> num \<noteq> [] \<and> list_all isDigit num
          | _ \<Rightarrow> False))"

subsection \<open>Trees, catalog and cache\<close>

text \<open>
  A tree value is \<open>null\<close> or a node \<open>{type: 'COURSE', code}\<close>, \<open>{type: 'OR', children}\<close>,
  \<open>{type: 'AND', children}\<close>. \<open>parseToken\<close> returns what \<open>parseCourseset\<close> returns, so a
  child can be \<open>null\<close>.
\<close>

datatype ast = NULL | COURSE string | OR "ast list" | AND "ast list"

record course =
  code :: string
  session :: string
  prerequisites :: "string option"
  corequisites :: "string option"
  exclusions :: "string option"

text \<open>
  \<open>CourseDatabase\<close>: \<open>courses\<close> is the Map from code to course, \<open>coursesets\<close> maps a
  courseset id to the \<open>courses\<close> string of its entry.
\<close>

record courseDatabase =
  courses :: "string \<rightharpoonup> course"
  coursesets :: "string \<rightharpoonup> string"

text \<open>\<open>treeCache\<close>, the state of the validator.\<close>

type_synonym cache = "string \<rightharpoonup> ast"

subsection \<open>The three parsing methods\<close>

text \<open>
  \<open>parseCourseset\<close>, \<open>parseExpression\<close> and \<open>parseToken\<close> call each other, and nothing
  bounds the recursion: a call that does not return is the value \<open>None\<close>. A call that
  returns gives the tree and the cache it leaves. The bodies of \<open>parseToken\<close> and
  \<open>parseExpression\<close> are written over the function \<open>parseCs\<close> they call back, and
  \<open>parseCourseset\<close> ties the knot.
\<close>

definition parseToken_of ::
  "(cache \<Rightarrow> string option \<Rightarrow> (ast \<times> cache) option) \<Rightarrow> cache \<Rightarrow> string
     \<Rightarrow> (ast \<times> cache) option" where
  "parseToken_of parseCs cache token =
     (if isCoursesetRef token then parseCs cache (Some token)
      else Some (COURSE token, cache))"

text \<open>\<open>parts.map(p => this.parseToken(p))\<close>, left to right.\<close>

fun parseTokens_of ::
  "(cache \<Rightarrow> string option \<Rightarrow> (ast \<times> cache) option) \<Rightarrow> cache \<Rightarrow> string list
     \<Rightarrow> (ast list \<times> cache) option" where
  "parseTokens_of parseCs cache [] = Some ([], cache)"
| "parseTokens_of parseCs cache (p # parts) =
     Option.bind (parseToken_of parseCs cache p) (\<lambda>(t, cache1).
       Option.bind (parseTokens_of parseCs cache1 parts) (\<lambda>(ts, cache2).
         Some (t # ts, cache2)))"

definition parseExpression_of ::
  "(cache \<Rightarrow> string option \<Rightarrow> (ast \<times> cache) option) \<Rightarrow> cache \<Rightarrow> string
     \<Rightarrow> (ast \<times> cache) option" where
  "parseExpression_of parseCs cache expr =
     (let trimmed = trim expr in
      if includesStr trimmed '' & '' then
        (let parts = map trim (splitStr trimmed '' & '')
         in Option.bind (parseTokens_of parseCs cache parts)
              (\<lambda>(children, cache'). Some (AND children, cache')))
      else if includesStr trimmed '' / '' then
        (let parts = map trim (splitStr trimmed '' / '')
         in Option.bind (parseTokens_of parseCs cache parts)
              (\<lambda>(children, cache'). Some (OR children, cache')))
      else parseToken_of parseCs cache trimmed)"

lemma case_prod_mono_option:
  assumes "\<And>a b. mono_option (\<lambda>f. g f a b)"
  shows "mono_option (\<lambda>f. case p of (a, b) \<Rightarrow> g f a b)"
  using assms by (cases p) simp

lemma parseToken_of_mono [partial_function_mono]:
  assumes "\<And>c s. mono_option (\<lambda>f. F f c s)"
  shows "mono_option (\<lambda>f. parseToken_of (F f) cache token)"
  unfolding parseToken_of_def by (intro partial_function_mono assms)

lemma parseTokens_of_mono [partial_function_mono]:
  assumes "\<And>c s. mono_option (\<lambda>f. F f c s)"
  shows "mono_option (\<lambda>f. parseTokens_of (F f) cache parts)"
proof (induction parts arbitrary: cache)
  case Nil
  show ?case by (simp add: partial_function_mono)
next
  case (Cons p parts)
  show ?case
    unfolding parseTokens_of.simps
    by (intro partial_function_mono case_prod_mono_option parseToken_of_mono assms Cons)
qed

lemma parseExpression_of_mono [partial_function_mono]:
  assumes "\<And>c s. mono_option (\<lambda>f. F f c s)"
  shows "mono_option (\<lambda>f. parseExpression_of (F f) cache expr)"
  unfolding parseExpression_of_def
  by (intro partial_function_mono case_prod_mono_option parseToken_of_mono
        parseTokens_of_mono assms)

text \<open>
  \<open>parseCourseset(setId)\<close>: \<open>null\<close> for a falsy id (\<open>null\<close> or the empty string), the
  cached tree when there is one, \<open>null\<close> for an id that is not a key of \<open>coursesets\<close>;
  otherwise the parsed expression, stored in the cache after the parse has returned.
\<close>

partial_function (option) parseCourseset ::
  "courseDatabase \<Rightarrow> cache \<Rightarrow> string option \<Rightarrow> (ast \<times> cache) option" where
  "parseCourseset db cache setId =
     (case setId of
        None \<Rightarrow> Some (NULL, cache)
      | Some sid \<Rightarrow>
          if sid = [] then Some (NULL, cache)
          else case cache sid of
                 Some tree \<Rightarrow> Some (tree, cache)
               | None \<Rightarrow>
                   (case coursesets db sid of
                      None \<Rightarrow> Some (NULL, cache)
                    | Some cs \<Rightarrow>
                        Option.bind (parseExpression_of (parseCourseset db) cache cs)
                          (\<lambda>(tree, cache'). Some (tree, cache'(sid \<mapsto> tree)))))"

declare parseCourseset.simps [code]




section \<open>Requirement evaluator\<close>

text \<open>The three kinds of \<open>MissingInfo\<close> the source documents.\<close>

datatype missingInfo =
  MissingCourse string | MissingOr "string list" | MissingAnd "missingInfo list"

record requirementResult =
  satisfied :: bool
  missing :: "missingInfo list"

text \<open>\<open>children.flatMap(f)\<close> over calls that may throw: the first exception ends it.\<close>

fun flatMap :: "(error + 'a list) list \<Rightarrow> error + 'a list" where
  "flatMap [] = Inr []"
| "flatMap (Inl e # rs) = Inl e"
| "flatMap (Inr xs # rs) = (case flatMap rs of Inl e \<Rightarrow> Inl e | Inr ys \<Rightarrow> Inr (xs @ ys))"

text \<open>\<open>collectLeafCodes(tree)\<close> reads \<open>tree.type\<close>, which throws on \<open>null\<close>.\<close>

fun collectLeafCodes :: "ast \<Rightarrow> error + string list" where
  "collectLeafCodes NULL = Inl TypeError"
| "collectLeafCodes (COURSE c) = Inr [c]"
| "collectLeafCodes (OR children) = flatMap (map collectLeafCodes children)"
| "collectLeafCodes (AND children) = flatMap (map collectLeafCodes children)"

text \<open>
  The loop of the OR case over the children's results, in child order: it returns at the
  first satisfied child, so that a later child is not evaluated.
\<close>

fun anySatisfied :: "(error + requirementResult) list \<Rightarrow> error + bool" where
  "anySatisfied [] = Inr False"
| "anySatisfied (Inl e # rs) = Inl e"
| "anySatisfied (Inr result # rs) = (if satisfied result then Inr True else anySatisfied rs)"

text \<open>The loop of the AND case, with its two accumulators; every child is evaluated.\<close>

fun allSatisfied ::
  "bool \<Rightarrow> missingInfo list \<Rightarrow> (error + requirementResult) list
     \<Rightarrow> error + requirementResult" where
  "allSatisfied sat allMissing [] = Inr \<lparr>satisfied = sat, missing = allMissing\<rparr>"
| "allSatisfied sat allMissing (Inl e # rs) = Inl e"
| "allSatisfied sat allMissing (Inr result # rs) =
     (if \<not> satisfied result then allSatisfied False (allMissing @ missing result) rs
      else allSatisfied sat allMissing rs)"

fun validate :: "string set \<Rightarrow> ast \<Rightarrow> error + requirementResult" where
  "validate completedCourses NULL = Inr \<lparr>satisfied = True, missing = []\<rparr>"
| "validate completedCourses (COURSE c) =
     (let sat = c \<in> completedCourses
      in Inr \<lparr>satisfied = sat, missing = (if sat then [] else [MissingCourse c])\<rparr>)"
| "validate completedCourses (OR children) =
     (case anySatisfied (map (validate completedCourses) children) of
        Inl e \<Rightarrow> Inl e
      | Inr True \<Rightarrow> Inr \<lparr>satisfied = True, missing = []\<rparr>
      | Inr False \<Rightarrow>
          (case collectLeafCodes (OR children) of
             Inl e \<Rightarrow> Inl e
           | Inr options \<Rightarrow> Inr \<lparr>satisfied = False, missing = [MissingOr options]\<rparr>))"
| "validate completedCourses (AND children) =
     allSatisfied True [] (map (validate completedCourses) children)"

section \<open>Placement validator\<close>

datatype placementError =
  Prerequisite "missingInfo list" | Corequisite "missingInfo list" | Exclusion "string list"

record placementResult =
  valid :: bool
  errors :: "placementError list"

text \<open>\<open>if (course.prerequisites)\<close>: the id is neither \<open>null\<close> nor the empty string.\<close>

definition truthyId :: "string option \<Rightarrow> bool" where
  "truthyId setId = (case setId of None \<Rightarrow> False | Some sid \<Rightarrow> sid \<noteq> [])"

text \<open>
  A step of the validator returns a value or throws, and leaves a cache; it may also not
  return, when a parse does not (\<open>None\<close>).
\<close>

type_synonym 'a outcome = "((error + 'a) \<times> cache) option"

definition andThen :: "'a outcome \<Rightarrow> ('a \<Rightarrow> cache \<Rightarrow> 'b outcome) \<Rightarrow> 'b outcome" where
  "andThen m f =
     (case m of
        None \<Rightarrow> None
      | Some (Inl e, cache) \<Rightarrow> Some (Inl e, cache)
      | Some (Inr a, cache) \<Rightarrow> f a cache)"

text \<open>The three blocks of \<open>validatePlacement\<close>, each appending to \<open>errors\<close>.\<close>

definition checkPrerequisites ::
  "courseDatabase \<Rightarrow> cache \<Rightarrow> course \<Rightarrow> string \<Rightarrow> grid \<Rightarrow> string list
     \<Rightarrow> placementError list \<Rightarrow> (placementError list) outcome" where
  "checkPrerequisites db cache course semesterId g semesterOrder errs =
     (if truthyId (prerequisites course) then
        (case getCoursesBeforeSemester g semesterId semesterOrder of
           Inl e \<Rightarrow> Some (Inl e, cache)
         | Inr completed \<Rightarrow>
             (case parseCourseset db cache (prerequisites course) of
                None \<Rightarrow> None
              | Some (prereqTree, cache') \<Rightarrow>
                  (case validate completed prereqTree of
                     Inl e \<Rightarrow> Some (Inl e, cache')
                   | Inr result \<Rightarrow>
                       Some (Inr (if \<not> satisfied result
                                  then errs @ [Prerequisite (missing result)] else errs),
                             cache'))))
      else Some (Inr errs, cache))"

definition checkCorequisites ::
  "courseDatabase \<Rightarrow> cache \<Rightarrow> course \<Rightarrow> string \<Rightarrow> grid \<Rightarrow> string list
     \<Rightarrow> placementError list \<Rightarrow> (placementError list) outcome" where
  "checkCorequisites db cache course semesterId g semesterOrder errs =
     (if truthyId (corequisites course) then
        (case getCoursesUpToSemester g semesterId semesterOrder of
           Inl e \<Rightarrow> Some (Inl e, cache)
         | Inr completed \<Rightarrow>
             (case parseCourseset db cache (corequisites course) of
                None \<Rightarrow> None
              | Some (coreqTree, cache') \<Rightarrow>
                  (case validate completed coreqTree of
                     Inl e \<Rightarrow> Some (Inl e, cache')
                   | Inr result \<Rightarrow>
                       Some (Inr (if \<not> satisfied result
                                  then errs @ [Corequisite (missing result)] else errs),
                             cache'))))
      else Some (Inr errs, cache))"

definition checkExclusions ::
  "courseDatabase \<Rightarrow> cache \<Rightarrow> course \<Rightarrow> string \<Rightarrow> grid
     \<Rightarrow> placementError list \<Rightarrow> (placementError list) outcome" where
  "checkExclusions db cache course courseCode g errs =
     (if truthyId (exclusions course) then
        (let allPlaced = getAllPlacedCourses g - {courseCode}
         in case parseCourseset db cache (exclusions course) of
              None \<Rightarrow> None
            | Some (exclTree, cache') \<Rightarrow>
                (case validate allPlaced exclTree of
                   Inl e \<Rightarrow> Some (Inl e, cache')
                 | Inr result \<Rightarrow>
                     if satisfied result then
                       (case collectLeafCodes exclTree of
                          Inl e \<Rightarrow> Some (Inl e, cache')
                        | Inr leaves \<Rightarrow>
                            Some (Inr (errs @ [Exclusion (filter (\<lambda>c. c \<in> allPlaced) leaves)]),
                                  cache'))
                     else Some (Inr errs, cache')))
      else Some (Inr errs, cache))"

text \<open>
  \<open>validatePlacement(courseCode, semesterId, gridManager, semesterOrder)\<close>, as
  \<open>validateAll\<close> calls it: with the value of a slot. The keys of \<open>db.courses\<close> are
  strings, so \<open>getCourse\<close> finds nothing for \<open>null\<close> and \<open>undefined\<close>. The function has
  the three blocks of the dependency validator; the session check that the plan of a later
  phase adds to it is not part of it.
\<close>

definition validatePlacement ::
  "courseDatabase \<Rightarrow> cache \<Rightarrow> slot \<Rightarrow> string \<Rightarrow> grid \<Rightarrow> string list
     \<Rightarrow> placementResult outcome" where
  "validatePlacement db cache courseCode semesterId g semesterOrder =
     (case courseCode of
        Code c \<Rightarrow>
          (case courses db c of
             None \<Rightarrow> Some (Inr \<lparr>valid = True, errors = []\<rparr>, cache)
           | Some course \<Rightarrow>
               andThen (checkPrerequisites db cache course semesterId g semesterOrder [])
                 (\<lambda>errs1 cache1.
               andThen (checkCorequisites db cache1 course semesterId g semesterOrder errs1)
                 (\<lambda>errs2 cache2.
               andThen (checkExclusions db cache2 course c g errs2)
                 (\<lambda>errs3 cache3.
               Some (Inr \<lparr>valid = (errs3 = []), errors = errs3\<rparr>, cache3)))))
      | _ \<Rightarrow> Some (Inr \<lparr>valid = True, errors = []\<rparr>, cache))"

text \<open>
  \<open>validateAll(gridManager, semesterOrder)\<close>: the result is a \<open>Map\<close> keyed by the values
  of the slots, in insertion order (\<open>results.set\<close> is \<open>AList.update\<close>).
\<close>

type_synonym results = "(slot \<times> placementResult) list"

fun validateSlots ::
  "courseDatabase \<Rightarrow> cache \<Rightarrow> string \<Rightarrow> grid \<Rightarrow> string list \<Rightarrow> results \<Rightarrow> slot list
     \<Rightarrow> results outcome" where
  "validateSlots db cache semId g semesterOrder res [] = Some (Inr res, cache)"
| "validateSlots db cache semId g semesterOrder res (courseCode # slots) =
     (case validatePlacement db cache courseCode semId g semesterOrder of
        None \<Rightarrow> None
      | Some (Inl e, cache') \<Rightarrow> Some (Inl e, cache')
      | Some (Inr r, cache') \<Rightarrow>
          validateSlots db cache' semId g semesterOrder (AList.update courseCode r res) slots)"

fun validateSemesters ::
  "courseDatabase \<Rightarrow> cache \<Rightarrow> grid \<Rightarrow> string list \<Rightarrow> results \<Rightarrow> string list
     \<Rightarrow> results outcome" where
  "validateSemesters db cache g semesterOrder res [] = Some (Inr res, cache)"
| "validateSemesters db cache g semesterOrder res (semId # ids) =
     (case map_of g semId of
        None \<Rightarrow> Some (Inl TypeError, cache)
      | Some slots \<Rightarrow>
          (case validateSlots db cache semId g semesterOrder res slots of
             None \<Rightarrow> None
           | Some (Inl e, cache') \<Rightarrow> Some (Inl e, cache')
           | Some (Inr res', cache') \<Rightarrow> validateSemesters db cache' g semesterOrder res' ids))"

definition validateAll ::
  "courseDatabase \<Rightarrow> cache \<Rightarrow> grid \<Rightarrow> string list \<Rightarrow> results outcome" where
  "validateAll db cache g semesterOrder =
     validateSemesters db cache g semesterOrder [] semesterOrder"

section \<open>Notions used to state the properties\<close>

text \<open>A tree without absent nodes: every node is one of the three node objects.\<close>

fun nullFree :: "ast \<Rightarrow> bool" where
  "nullFree NULL = False"
| "nullFree (COURSE c) = True"
| "nullFree (OR children) = list_all nullFree children"
| "nullFree (AND children) = list_all nullFree children"

text \<open>
  The leaf course codes of a subtree, as the specification words them: the codes of all
  descendant course leaves, concatenated in order, duplicates kept.
\<close>

fun leafCodes :: "ast \<Rightarrow> string list" where
  "leafCodes NULL = []"
| "leafCodes (COURSE c) = [c]"
| "leafCodes (OR children) = concat (map leafCodes children)"
| "leafCodes (AND children) = concat (map leafCodes children)"

text \<open>No node is absent and every AND and OR node has at least one child.\<close>

fun populated :: "ast \<Rightarrow> bool" where
  "populated NULL = False"
| "populated (COURSE c) = True"
| "populated (OR children) = (children \<noteq> [] \<and> list_all populated children)"
| "populated (AND children) = (children \<noteq> [] \<and> list_all populated children)"

text \<open>A nested AND entry of a missing list.\<close>

fun isMissingAnd :: "missingInfo \<Rightarrow> bool" where
  "isMissingAnd (MissingAnd items) = True"
| "isMissingAnd _ = False"

text \<open>What an unsatisfied child contributes to the list of an AND node.\<close>

definition unsatisfiedMissing :: "string set \<Rightarrow> ast \<Rightarrow> missingInfo list" where
  "unsatisfiedMissing completed child =
     (case validate completed child of
        Inr result \<Rightarrow> if satisfied result then [] else missing result
      | Inl e \<Rightarrow> [])"


text \<open>The tokens of an expression string: what \<open>parseExpression\<close> hands to \<open>parseToken\<close>.\<close>

definition tokensOf :: "string \<Rightarrow> string list" where
  "tokensOf expr =
     (let trimmed = trim expr in
      if includesStr trimmed '' & '' then map trim (splitStr trimmed '' & '')
      else if includesStr trimmed '' / '' then map trim (splitStr trimmed '' / '')
      else [trimmed])"

text \<open>
  A courseset id references another when the other id is a token of its expression
  string and has the form of a courseset reference.
\<close>

definition references :: "courseDatabase \<Rightarrow> (string \<times> string) set" where
  "references db =
     {(x, y). \<exists>expr. coursesets db x = Some expr \<and> y \<in> set (tokensOf expr) \<and> isCoursesetRef y}"


section \<open>Properties of the grid\<close>

lemma readSlot_writeSlot:
  "readSlot (writeSlot slots i v) j = (if j = i then v else readSlot slots j)"
  by (auto simp: readSlot_def writeSlot_def nth_append)

lemma slotAt_update:
  "slotAt (AList.update s slots g) s' i =
     (if s' = s then Some (readSlot slots i) else slotAt g s' i)"
  by (simp add: slotAt_def update_conv')

lemma slotAt_write:
  assumes "map_of g s = Some slots"
  shows "slotAt (AList.update s (writeSlot slots i v) g) s' i' =
           (if s' = s \<and> i' = i then Some v else slotAt g s' i')"
  using assms by (simp add: slotAt_update readSlot_writeSlot) (simp add: slotAt_def)

lemma keys_update_known:
  "map_of g s = Some slots \<Longrightarrow> map fst (AList.update s x g) = map fst g"
  by (simp add: update_keys) (metis domI dom_map_of_conv_image_fst set_map)

lemma indexOf_absent: "indexOf xs x = -1 \<longleftrightarrow> x \<notin> set xs"
proof (induction xs)
  case Nil
  show ?case by simp
next
  case (Cons y ys)
  have nonneg: "\<And>zs. indexOf zs x \<ge> -1"
    subgoal for zs by (induction zs) (auto simp: Let_def)
    done
  from Cons nonneg[of ys] show ?case by (auto simp: Let_def)
qed

lemma findCourse_iff:
  "findCourse g c \<noteq> None \<longleftrightarrow> (\<exists>(s, slots) \<in> set g. Code c \<in> set slots)"
  by (induction g c rule: findCourse.induct) (auto simp: Let_def indexOf_absent)

lemma slotAt_code_in_set:
  "slotAt g s i = Some (Code c) \<Longrightarrow> \<exists>slots. (s, slots) \<in> set g \<and> Code c \<in> set slots"
  by (auto simp: slotAt_def readSlot_def split: option.splits if_splits dest: map_of_SomeD)
     (metis nth_mem map_of_SomeD)

lemma findCourse_slotAt:
  assumes "distinct (map fst g)"
  shows "findCourse g c \<noteq> None \<longleftrightarrow> (\<exists>s i. slotAt g s i = Some (Code c))"
proof
  assume "findCourse g c \<noteq> None"
  then have "\<exists>(s, slots) \<in> set g. Code c \<in> set slots"
    unfolding findCourse_iff .
  then obtain s slots where m: "(s, slots) \<in> set g" and "Code c \<in> set slots"
    by blast
  then obtain i where "i < length slots" "slots ! i = Code c"
    by (auto simp: in_set_conv_nth)
  moreover from assms m have "map_of g s = Some slots" by simp
  ultimately have "slotAt g s i = Some (Code c)" by (simp add: slotAt_def readSlot_def)
  then show "\<exists>s i. slotAt g s i = Some (Code c)" by blast
next
  assume "\<exists>s i. slotAt g s i = Some (Code c)"
  then show "findCourse g c \<noteq> None"
    unfolding findCourse_iff using slotAt_code_in_set by fastforce
qed

lemma placedOnce_write:
  assumes po: "placedOnce g"
    and g': "\<And>s' i'. slotAt g' s' i' = (if s' = s \<and> i' = i then Some v else slotAt g s' i')"
    and fresh: "\<And>c s' i'. v = Code c \<Longrightarrow> slotAt g s' i' = Some (Code c) \<Longrightarrow> s' = s \<and> i' = i"
  shows "placedOnce g'"
  unfolding placedOnce_def
proof (intro allI impI)
  fix c s1 i1 s2 i2
  assume h: "slotAt g' s1 i1 = Some (Code c) \<and> slotAt g' s2 i2 = Some (Code c)"
  show "s1 = s2 \<and> i1 = i2"
  proof (cases "s1 = s \<and> i1 = i")
    case p1: True
    show ?thesis
    proof (cases "s2 = s \<and> i2 = i")
      case True with p1 show ?thesis by simp
    next
      case False
      with h p1 g' have "v = Code c" "slotAt g s2 i2 = Some (Code c)" by auto
      with fresh False show ?thesis by blast
    qed
  next
    case np1: False
    show ?thesis
    proof (cases "s2 = s \<and> i2 = i")
      case True
      with h np1 g' have "v = Code c" "slotAt g s1 i1 = Some (Code c)" by auto
      with fresh np1 show ?thesis by blast
    next
      case False
      with h np1 g' have "slotAt g s1 i1 = Some (Code c)" "slotAt g s2 i2 = Some (Code c)"
        by auto
      with po show ?thesis unfolding placedOnce_def by blast
    qed
  qed
qed

lemma slotAt_initSemesters:
  assumes "\<And>s i c. slotAt g s i \<noteq> Some (Code c)"
  shows "slotAt (initSemesters g ids) s i \<noteq> Some (Code c)"
  using assms
proof (induction ids arbitrary: g)
  case Nil
  then show ?case by simp
next
  case (Cons semId ids)
  have "\<And>s i c. slotAt (AList.update semId (replicate slotsPerSemester Null) g) s i
          \<noteq> Some (Code c)"
    using Cons.prems by (simp add: slotAt_update readSlot_def)
  from Cons.IH[OF this] show ?case by simp
qed

lemma distinct_initSemesters:
  "distinct (map fst g) \<Longrightarrow> distinct (map fst (initSemesters g ids))"
  by (induction ids arbitrary: g) (simp_all add: distinct_update)

lemma placedOnce_init: "placedOnce (initSemesters [] ids)"
proof -
  have "\<And>s i c. slotAt [] s i \<noteq> Some (Code c)" by (simp add: slotAt_def)
  from slotAt_initSemesters[OF this] show ?thesis
    unfolding placedOnce_def by blast
qed

lemma placedOnce_remove:
  assumes "placedOnce g" "map_of g s = Some slots"
  shows "placedOnce (AList.update s (writeSlot slots i Null) g)"
  by (rule placedOnce_write[OF assms(1), where s = s and i = i and v = Null])
     (simp_all add: slotAt_write[OF assms(2)])

lemma placedOnce_addCourse:
  assumes po: "placedOnce g" and d: "distinct (map fst g)"
  shows "placedOnce (snd (addCourse g s i c))"
proof (cases "findCourse g c \<noteq> None")
  case True
  with po show ?thesis by (simp add: addCourse_def)
next
  case nf: False
  then have fresh: "\<And>s' i'. slotAt g s' i' \<noteq> Some (Code c)"
    using findCourse_slotAt[OF d, of c] by blast
  show ?thesis
  proof (cases "map_of g s")
    case None
    with po nf show ?thesis by (simp add: addCourse_def)
  next
    case (Some slots)
    show ?thesis
    proof (cases "readSlot slots i \<noteq> Null")
      case True
      with po nf Some show ?thesis by (simp add: addCourse_def)
    next
      case False
      have "placedOnce (AList.update s (writeSlot slots i (Code c)) g)"
        by (rule placedOnce_write[OF po, where s = s and i = i and v = "Code c"])
           (use fresh in \<open>simp_all add: slotAt_write[OF Some]\<close>)
      with nf Some False show ?thesis by (simp add: addCourse_def)
    qed
  qed
qed

lemma placedOnce_moveCourse:
  assumes po: "placedOnce g"
  shows "placedOnce (snd (moveCourse g fs fi ts ti))"
proof (cases "map_of g fs")
  case None
  with po show ?thesis by (simp add: moveCourse_def)
next
  case (Some fromSlots)
  define g1 where "g1 = AList.update fs (writeSlot fromSlots fi Null) g"
  have g1: "\<And>s' i'. slotAt g1 s' i' = (if s' = fs \<and> i' = fi then Some Null else slotAt g s' i')"
    unfolding g1_def by (rule slotAt_write[OF Some])
  have po1: "placedOnce g1"
    unfolding g1_def by (rule placedOnce_remove[OF po Some])
  have src: "slotAt g fs fi = Some (readSlot fromSlots fi)"
    using Some by (simp add: slotAt_def)
  show ?thesis
  proof (cases "map_of g1 ts")
    case None
    with po1 Some show ?thesis by (simp add: moveCourse_def g1_def Let_def)
  next
    case ts: (Some toSlots)
    have "placedOnce (AList.update ts (writeSlot toSlots ti (readSlot fromSlots fi)) g1)"
    proof (rule placedOnce_write[OF po1, where s = ts and i = ti and v = "readSlot fromSlots fi"])
      fix s' i'
      show "slotAt (AList.update ts (writeSlot toSlots ti (readSlot fromSlots fi)) g1) s' i' =
              (if s' = ts \<and> i' = ti then Some (readSlot fromSlots fi) else slotAt g1 s' i')"
        by (rule slotAt_write[OF ts])
    next
      fix c s' i'
      assume v: "readSlot fromSlots fi = Code c" and h: "slotAt g1 s' i' = Some (Code c)"
      from h g1 have ne: "\<not> (s' = fs \<and> i' = fi)" and "slotAt g s' i' = Some (Code c)"
        by (auto split: if_splits)
      with po src v have "s' = fs \<and> i' = fi" unfolding placedOnce_def by metis
      with ne show "s' = ts \<and> i' = ti" by simp
    qed
    with Some ts show ?thesis by (simp add: moveCourse_def g1_def Let_def)
  qed
qed

lemma distinct_ops:
  assumes "distinct (map fst g)"
  shows "distinct (map fst (snd (addCourse g s i c)))"
    and "distinct (map fst (snd (removeCourse g s i)))"
    and "distinct (map fst (snd (moveCourse g fs fi ts ti)))"
  using assms
  by (auto simp: addCourse_def removeCourse_def moveCourse_def Let_def distinct_update
      split: option.splits)

lemma reachable_inv: "reachable g \<Longrightarrow> distinct (map fst g) \<and> placedOnce g"
proof (induction rule: reachable.induct)
  case (r_init ids)
  show ?case using distinct_initSemesters[of "[]" ids] placedOnce_init by simp
next
  case (r_add g semesterId slotIndex courseCode)
  then show ?case using placedOnce_addCourse distinct_ops(1) by blast
next
  case (r_remove g semesterId slotIndex)
  then show ?case
    using distinct_ops(2)[of g semesterId slotIndex] placedOnce_remove[of g semesterId]
    by (auto simp: removeCourse_def split: option.splits)
next
  case (r_move g fromSemester fromSlot toSemester toSlot)
  then show ?case using placedOnce_moveCourse distinct_ops(3) by blast
qed

lemma addCodes_eq: "addCodes S slots = S \<union> {c. c \<noteq> [] \<and> Code c \<in> set slots}"
  by (induction S slots rule: addCodes.induct) auto

lemma foldl_addCodes:
  "foldl addCodes S rows = S \<union> {c. c \<noteq> [] \<and> (\<exists>slots \<in> set rows. Code c \<in> set slots)}"
  by (induction rows arbitrary: S) (auto simp: addCodes_eq)

lemma getAllPlacedCourses_eq:
  "getAllPlacedCourses g = {c. c \<noteq> [] \<and> (\<exists>(s, slots) \<in> set g. Code c \<in> set slots)}"
  by (force simp: getAllPlacedCourses_def foldl_addCodes)

lemma getAllPlacedCourses_slotAt:
  assumes "distinct (map fst g)"
  shows "getAllPlacedCourses g = {c. c \<noteq> [] \<and> (\<exists>s i. slotAt g s i = Some (Code c))}"
proof -
  have "(\<exists>(s, slots) \<in> set g. Code c \<in> set slots) \<longleftrightarrow> (\<exists>s i. slotAt g s i = Some (Code c))"
    for c
    using findCourse_slotAt[OF assms, of c] unfolding findCourse_iff .
  then show ?thesis unfolding getAllPlacedCourses_eq by simp
qed

text \<open>
  Claim C9. From a fresh grid initialised by \<open>initSemesters\<close>, after any sequence of
  \<open>addCourse\<close>, \<open>removeCourse\<close> and \<open>moveCourse\<close> calls, every course code is in at
  most one slot of the whole grid; and \<open>addCourse\<close> returns \<open>false\<close> and leaves the state
  as it is when the code is already in some slot of the grid, or when the target slot
  holds a course.
\<close>

theorem grid_places_each_code_once:
  assumes "reachable g"
  shows "placedOnce g \<and>
         ((\<exists>s i. slotAt g s i = Some (Code courseCode)) \<longrightarrow>
            addCourse g semesterId slotIndex courseCode = (Inr False, g)) \<and>
         ((\<exists>d. slotAt g semesterId slotIndex = Some (Code d)) \<longrightarrow>
            addCourse g semesterId slotIndex courseCode = (Inr False, g))"
proof -
  from reachable_inv[OF assms] have d: "distinct (map fst g)" and po: "placedOnce g"
    by simp_all
  have "addCourse g semesterId slotIndex courseCode = (Inr False, g)"
    if "\<exists>s i. slotAt g s i = Some (Code courseCode)"
    using that findCourse_slotAt[OF d, of courseCode] by (simp add: addCourse_def)
  moreover have "addCourse g semesterId slotIndex courseCode = (Inr False, g)"
    if "\<exists>d. slotAt g semesterId slotIndex = Some (Code d)"
    using that by (auto simp: addCourse_def slotAt_def split: option.splits)
  ultimately show ?thesis using po by blast
qed

text \<open>The witness: a grid with one course placed, and two rejected calls.\<close>

theorem grid_places_each_code_once_witness:
  "reachable (snd (addCourse (initSemesters [] [''fall-1'', ''winter-1'']) ''fall-1'' 0 ''APS105H1''))
   \<and> snd (addCourse (initSemesters [] [''fall-1'', ''winter-1'']) ''fall-1'' 0 ''APS105H1'') =
       [(''fall-1'', [Code ''APS105H1'', Null, Null, Null, Null]),
        (''winter-1'', [Null, Null, Null, Null, Null])]
   \<and> placedOnce [(''fall-1'', [Code ''APS105H1'', Null, Null, Null, Null]),
                  (''winter-1'', [Null, Null, Null, Null, Null])]
   \<and> addCourse [(''fall-1'', [Code ''APS105H1'', Null, Null, Null, Null]),
                 (''winter-1'', [Null, Null, Null, Null, Null])] ''winter-1'' 2 ''APS105H1''
       = (Inr False, [(''fall-1'', [Code ''APS105H1'', Null, Null, Null, Null]),
                      (''winter-1'', [Null, Null, Null, Null, Null])])
   \<and> addCourse [(''fall-1'', [Code ''APS105H1'', Null, Null, Null, Null]),
                 (''winter-1'', [Null, Null, Null, Null, Null])] ''fall-1'' 0 ''ECE110H1''
       = (Inr False, [(''fall-1'', [Code ''APS105H1'', Null, Null, Null, Null]),
                      (''winter-1'', [Null, Null, Null, Null, Null])])"
proof -
  let ?g = "snd (addCourse (initSemesters [] [''fall-1'', ''winter-1'']) ''fall-1'' 0 ''APS105H1'')"
  have r: "reachable ?g" by (rule r_add[OF r_init])
  have e: "?g = [(''fall-1'', [Code ''APS105H1'', Null, Null, Null, Null]),
                 (''winter-1'', [Null, Null, Null, Null, Null])]"
    by (simp add: addCourse_def slotsPerSemester_def readSlot_def writeSlot_def
        numeral_eq_Suc Let_def)
  have s1: "\<exists>s i. slotAt ?g s i = Some (Code ''APS105H1'')"
    unfolding e by (rule exI[of _ "''fall-1''"], rule exI[of _ 0]) (simp add: slotAt_def readSlot_def)
  have s2: "\<exists>d. slotAt ?g ''fall-1'' 0 = Some (Code d)"
    unfolding e by (simp add: slotAt_def readSlot_def)
  from grid_places_each_code_once[OF r, of "''APS105H1''" "''winter-1''" 2] s1
       grid_places_each_code_once[OF r, of "''ECE110H1''" "''fall-1''" 0] s2 r e
  show ?thesis by simp
qed

text \<open>
  Claim C10. \<open>moveCourse\<close> does not look at the destination: whenever both semesters are
  keys of the state it returns normally, the destination slot then holds what the source
  slot held, the source slot (when it is another slot) holds \<open>null\<close>, and every other slot
  reads as before. A course that occupied the destination slot (in a grid that places
  each code once) is then nowhere in the grid.
\<close>

theorem moveCourse_overwrites_destination:
  assumes "map_of g fromSemester = Some fromSlots" and "map_of g toSemester = Some toSlots"
  shows "\<exists>g'. moveCourse g fromSemester fromSlot toSemester toSlot = (Inr (), g') \<and>
           map fst g' = map fst g \<and>
           slotAt g' toSemester toSlot = slotAt g fromSemester fromSlot \<and>
           ((fromSemester, fromSlot) \<noteq> (toSemester, toSlot) \<longrightarrow>
              slotAt g' fromSemester fromSlot = Some Null) \<and>
           (\<forall>s i. (s, i) \<noteq> (fromSemester, fromSlot) \<and> (s, i) \<noteq> (toSemester, toSlot) \<longrightarrow>
              slotAt g' s i = slotAt g s i) \<and>
           (\<forall>d. distinct (map fst g) \<and> placedOnce g \<and>
                slotAt g toSemester toSlot = Some (Code d) \<and>
                (fromSemester, fromSlot) \<noteq> (toSemester, toSlot) \<longrightarrow>
                findCourse g' d = None \<and> d \<notin> getAllPlacedCourses g')"
proof -
  define g1 where "g1 = AList.update fromSemester (writeSlot fromSlots fromSlot Null) g"
  obtain toSlots1 where ts: "map_of g1 toSemester = Some toSlots1"
    using assms(2) by (cases "toSemester = fromSemester") (simp_all add: g1_def update_conv')
  define g' where "g' = AList.update toSemester
      (writeSlot toSlots1 toSlot (readSlot fromSlots fromSlot)) g1"
  have mv: "moveCourse g fromSemester fromSlot toSemester toSlot = (Inr (), g')"
    using assms(1) ts by (simp add: moveCourse_def Let_def g1_def[symmetric] g'_def)
  have g1: "\<And>s i. slotAt g1 s i =
      (if s = fromSemester \<and> i = fromSlot then Some Null else slotAt g s i)"
    unfolding g1_def by (rule slotAt_write[OF assms(1)])
  have src: "slotAt g fromSemester fromSlot = Some (readSlot fromSlots fromSlot)"
    using assms(1) by (simp add: slotAt_def)
  have g': "\<And>s i. slotAt g' s i =
      (if s = toSemester \<and> i = toSlot then slotAt g fromSemester fromSlot
       else if s = fromSemester \<and> i = fromSlot then Some Null else slotAt g s i)"
    unfolding g'_def by (simp add: slotAt_write[OF ts] g1 src)
  have "map fst g1 = map fst g"
    unfolding g1_def by (rule keys_update_known[OF assms(1)])
  moreover have "map fst g' = map fst g1"
    unfolding g'_def by (rule keys_update_known[OF ts])
  ultimately have keys: "map fst g' = map fst g" by simp
  have gone: "findCourse g' d = None \<and> d \<notin> getAllPlacedCourses g'"
    if h: "distinct (map fst g) \<and> placedOnce g \<and> slotAt g toSemester toSlot = Some (Code d) \<and>
           (fromSemester, fromSlot) \<noteq> (toSemester, toSlot)" for d
  proof -
    have dg': "distinct (map fst g')" using h keys by simp
    have "slotAt g' s i \<noteq> Some (Code d)" for s i
    proof
      assume a: "slotAt g' s i = Some (Code d)"
      show False
      proof (cases "s = toSemester \<and> i = toSlot")
        case True
        with a g' have "slotAt g fromSemester fromSlot = Some (Code d)" by simp
        with h show False unfolding placedOnce_def by blast
      next
        case False
        with a g' have "slotAt g s i = Some (Code d)" by (auto split: if_splits)
        with h False show False unfolding placedOnce_def by blast
      qed
    qed
    then show ?thesis
      using findCourse_slotAt[OF dg', of d] getAllPlacedCourses_slotAt[OF dg'] by auto
  qed
  show ?thesis
    by (rule exI[of _ g']) (use mv keys g' gone in auto)
qed

text \<open>The witness: a move onto an occupied slot of another semester.\<close>

theorem moveCourse_overwrites_destination_witness:
  "map_of [(''fall-1'', [Code ''APS105H1'', Null, Null, Null, Null]),
           (''winter-1'', [Code ''ECE110H1'', Null, Null, Null, Null])] ''fall-1''
     = Some [Code ''APS105H1'', Null, Null, Null, Null]
   \<and> map_of [(''fall-1'', [Code ''APS105H1'', Null, Null, Null, Null]),
             (''winter-1'', [Code ''ECE110H1'', Null, Null, Null, Null])] ''winter-1''
     = Some [Code ''ECE110H1'', Null, Null, Null, Null]
   \<and> (\<exists>g'. moveCourse [(''fall-1'', [Code ''APS105H1'', Null, Null, Null, Null]),
                        (''winter-1'', [Code ''ECE110H1'', Null, Null, Null, Null])]
               ''fall-1'' 0 ''winter-1'' 0 = (Inr (), g')
          \<and> slotAt g' ''winter-1'' 0 = Some (Code ''APS105H1'')
          \<and> slotAt g' ''fall-1'' 0 = Some Null
          \<and> slotAt g' ''fall-1'' 1 = Some Null
          \<and> findCourse g' ''ECE110H1'' = None
          \<and> ''ECE110H1'' \<notin> getAllPlacedCourses g')"
proof -
  let ?g0 = "initSemesters [] [''fall-1'', ''winter-1'']"
  let ?g1 = "snd (addCourse ?g0 ''fall-1'' 0 ''APS105H1'')"
  let ?g2 = "snd (addCourse ?g1 ''winter-1'' 0 ''ECE110H1'')"
  let ?g = "[(''fall-1'', [Code ''APS105H1'', Null, Null, Null, Null]),
             (''winter-1'', [Code ''ECE110H1'', Null, Null, Null, Null])]"
  have "reachable ?g2" by (intro r_add r_init)
  moreover have "?g2 = ?g"
    by (simp add: addCourse_def slotsPerSemester_def readSlot_def writeSlot_def
        numeral_eq_Suc Let_def)
  ultimately have "reachable ?g" by simp
  then have inv: "distinct (map fst ?g) \<and> placedOnce ?g" by (rule reachable_inv)
  have m1: "map_of ?g ''fall-1'' = Some [Code ''APS105H1'', Null, Null, Null, Null]"
    and m2: "map_of ?g ''winter-1'' = Some [Code ''ECE110H1'', Null, Null, Null, Null]"
    by simp_all
  have s1: "slotAt ?g ''fall-1'' 0 = Some (Code ''APS105H1'')"
    and s2: "slotAt ?g ''winter-1'' 0 = Some (Code ''ECE110H1'')"
    and s3: "slotAt ?g ''fall-1'' 1 = Some Null"
    by (simp_all add: slotAt_def readSlot_def)
  from moveCourse_overwrites_destination[OF m1 m2, of 0 0]
  obtain g' where
    "moveCourse ?g ''fall-1'' 0 ''winter-1'' 0 = (Inr (), g')"
    "slotAt g' ''winter-1'' 0 = slotAt ?g ''fall-1'' 0"
    "(''fall-1'', 0::nat) \<noteq> (''winter-1'', 0) \<longrightarrow> slotAt g' ''fall-1'' 0 = Some Null"
    "\<forall>s i. (s, i) \<noteq> (''fall-1'', 0) \<and> (s, i) \<noteq> (''winter-1'', 0) \<longrightarrow>
       slotAt g' s i = slotAt ?g s i"
    "\<forall>d. distinct (map fst ?g) \<and> placedOnce ?g \<and> slotAt ?g ''winter-1'' 0 = Some (Code d) \<and>
         (''fall-1'', 0::nat) \<noteq> (''winter-1'', 0) \<longrightarrow>
         findCourse g' d = None \<and> d \<notin> getAllPlacedCourses g'"
    by blast
  then have "moveCourse ?g ''fall-1'' 0 ''winter-1'' 0 = (Inr (), g')
          \<and> slotAt g' ''winter-1'' 0 = Some (Code ''APS105H1'')
          \<and> slotAt g' ''fall-1'' 0 = Some Null
          \<and> slotAt g' ''fall-1'' 1 = Some Null
          \<and> findCourse g' ''ECE110H1'' = None
          \<and> ''ECE110H1'' \<notin> getAllPlacedCourses g'"
    using inv s1 s2 s3 by (simp del: distinct.simps list.map)
  with m1 m2 show ?thesis by blast
qed

section \<open>Properties of the evaluator\<close>

lemma flatMap_map_Inr:
  assumes "\<And>a ys. a \<in> set cs \<Longrightarrow> f a = Inr ys \<longleftrightarrow> P a \<and> ys = g a"
  shows "flatMap (map f cs) = Inr xs \<longleftrightarrow> list_all P cs \<and> xs = concat (map g cs)"
  using assms
proof (induction cs arbitrary: xs)
  case Nil
  show ?case by auto
next
  case (Cons a cs)
  have IH: "\<And>ys. flatMap (map f cs) = Inr ys \<longleftrightarrow> list_all P cs \<and> ys = concat (map g cs)"
    using Cons by simp
  have a: "\<And>ys. f a = Inr ys \<longleftrightarrow> P a \<and> ys = g a"
    using Cons.prems by simp
  show ?case
  proof (cases "f a")
    case (Inl e)
    with a[of "g a"] show ?thesis by auto
  next
    case fa: (Inr ys)
    with a have pa: "P a" "ys = g a" by auto
    show ?thesis
    proof (cases "flatMap (map f cs)")
      case (Inl e)
      with IH[of "concat (map g cs)"] fa show ?thesis by auto
    next
      case (Inr zs)
      with IH[of zs] fa pa show ?thesis by auto
    qed
  qed
qed

lemma collectLeafCodes_Inr:
  "collectLeafCodes t = Inr xs \<longleftrightarrow> nullFree t \<and> xs = leafCodes t"
proof (induction t arbitrary: xs)
  case NULL
  show ?case by simp
next
  case (COURSE c)
  show ?case by auto
next
  case (OR children)
  then show ?case by (simp add: flatMap_map_Inr[where P = nullFree and g = leafCodes])
next
  case (AND children)
  then show ?case by (simp add: flatMap_map_Inr[where P = nullFree and g = leafCodes])
qed

lemma anySatisfied_True:
  "anySatisfied rs = Inr True \<Longrightarrow> \<exists>r. Inr r \<in> set rs \<and> satisfied r"
  by (induction rs rule: anySatisfied.induct) (auto split: if_splits)

lemma anySatisfied_False:
  "anySatisfied rs = Inr False \<longleftrightarrow> (\<forall>x \<in> set rs. \<exists>r. x = Inr r \<and> \<not> satisfied r)"
  by (induction rs rule: anySatisfied.induct) auto

lemma allSatisfied_returns:
  "allSatisfied sat ms rs = Inr r \<Longrightarrow> \<exists>rr. rs = map Inr rr"
proof (induction sat ms rs rule: allSatisfied.induct)
  case (1 sat allMissing)
  show ?case by simp
next
  case (2 sat allMissing e rs)
  then show ?case by simp
next
  case (3 sat allMissing result rs)
  then obtain rr where "rs = map Inr rr" by (auto split: if_splits)
  then have "Inr result # rs = map Inr (result # rr)" by simp
  then show ?case by (rule exI)
qed

lemma allSatisfied_map_Inr:
  "allSatisfied sat ms (map Inr rr) =
     Inr \<lparr>satisfied = (sat \<and> list_all satisfied rr),
          missing = ms @ concat (map (\<lambda>x. if satisfied x then [] else missing x) rr)\<rparr>"
  by (induction rr arbitrary: sat ms) auto

lemma validate_total: "nullFree t \<Longrightarrow> \<exists>r. validate S t = Inr r"
proof (induction t)
  case NULL
  then show ?case by simp
next
  case (COURSE c)
  show ?case by (simp add: Let_def)
next
  case (OR children)
  then have ch: "\<forall>c \<in> set children. \<exists>r. validate S c = Inr r"
    by (auto simp: list_all_iff)
  from OR.prems have leaves: "collectLeafCodes (OR children) = Inr (leafCodes (OR children))"
    using collectLeafCodes_Inr by blast
  have "\<exists>b. anySatisfied (map (validate S) children) = Inr b"
    using ch
  proof (induction children)
    case Nil
    show ?case by (rule exI[of _ False]) simp
  next
    case (Cons a children)
    then obtain r where "validate S a = Inr r" by auto
    with Cons show ?case by (cases "satisfied r") auto
  qed
  then obtain b where b: "anySatisfied (map (validate S) children) = Inr b" by blast
  show ?case
  proof (cases b)
    case True
    with b show ?thesis by simp
  next
    case False
    with b leaves show ?thesis by (simp del: collectLeafCodes.simps)
  qed
next
  case (AND children)
  then have "\<forall>c \<in> set children. \<exists>r. validate S c = Inr r"
    by (auto simp: list_all_iff)
  then have "\<exists>rr. map (validate S) children = map Inr rr"
  proof (induction children)
    case Nil
    show ?case by simp
  next
    case (Cons a children)
    then obtain r rr where "validate S a = Inr r" "map (validate S) children = map Inr rr"
      by auto
    then have "map (validate S) (a # children) = map Inr (r # rr)" by simp
    then show ?case by blast
  qed
  then obtain rr where "map (validate S) children = map Inr rr" by blast
  then show ?case by (simp add: allSatisfied_map_Inr)
qed

lemma validate_no_MissingAnd:
  "validate S t = Inr r \<Longrightarrow> \<not> list_ex isMissingAnd (missing r)"
proof (induction t arbitrary: r)
  case NULL
  then show ?case by auto
next
  case (COURSE c)
  then show ?case by (auto simp: Let_def split: if_splits)
next
  case (OR children)
  then show ?case by (auto split: sum.splits bool.splits)
next
  case (AND children)
  from AND.prems obtain rr where rr: "map (validate S) children = map Inr rr"
    using allSatisfied_returns by fastforce
  have "\<not> list_ex isMissingAnd (missing x)" if "x \<in> set rr" for x
  proof -
    from that rr have "Inr x \<in> set (map (validate S) children)" by simp
    then obtain c where "c \<in> set children" "validate S c = Inr x" by auto
    with AND.IH show ?thesis by blast
  qed
  then have "\<not> list_ex isMissingAnd (concat (map (\<lambda>x. if satisfied x then [] else missing x) rr))"
    by (auto simp: list_ex_iff)
  with AND.prems rr show ?case by (auto simp: allSatisfied_map_Inr)
qed

lemma validate_empty_unsatisfied:
  "populated t \<Longrightarrow> \<exists>r. validate {} t = Inr r \<and> \<not> satisfied r"
proof (induction t)
  case NULL
  then show ?case by simp
next
  case (COURSE c)
  show ?case by (simp add: Let_def)
next
  case (OR children)
  then have ch: "\<forall>c \<in> set children. \<exists>r. validate {} c = Inr r \<and> \<not> satisfied r"
    by (auto simp: list_all_iff)
  then have f: "anySatisfied (map (validate {}) children) = Inr False"
    unfolding anySatisfied_False by auto
  have "nullFree t" if "populated t" for t
    using that by (induction t) (auto simp: list_all_iff)
  with OR.prems have "collectLeafCodes (OR children) = Inr (leafCodes (OR children))"
    using collectLeafCodes_Inr by blast
  with f show ?case by (simp del: collectLeafCodes.simps)
next
  case (AND children)
  then have ch: "\<forall>c \<in> set children. \<exists>r. validate {} c = Inr r \<and> \<not> satisfied r"
    by (auto simp: list_all_iff)
  then have "\<exists>rr. map (validate {}) children = map Inr rr \<and> (\<forall>x \<in> set rr. \<not> satisfied x)"
  proof (induction children)
    case Nil
    show ?case by simp
  next
    case (Cons a children)
    then obtain r rr where "validate {} a = Inr r" "\<not> satisfied r"
      "map (validate {}) children = map Inr rr" "\<forall>x \<in> set rr. \<not> satisfied x"
      by auto
    then have "map (validate {}) (a # children) = map Inr (r # rr) \<and>
        (\<forall>x \<in> set (r # rr). \<not> satisfied x)" by simp
    then show ?case by blast
  qed
  then obtain rr where rr: "map (validate {}) children = map Inr rr"
    "\<forall>x \<in> set rr. \<not> satisfied x" by blast
  from AND.prems rr(1) have "rr \<noteq> []" by auto
  with rr show ?case by (cases rr) (auto simp: allSatisfied_map_Inr)
qed

lemma validate_OR_result:
  assumes "validate completed (OR children) = Inr r"
  shows "(satisfied r \<longleftrightarrow>
            (\<exists>c \<in> set children. \<exists>rc. validate completed c = Inr rc \<and> satisfied rc)) \<and>
         (satisfied r \<longrightarrow> missing r = []) \<and>
         (\<not> satisfied r \<longrightarrow> missing r = [MissingOr (leafCodes (OR children))])"
proof (cases "anySatisfied (map (validate completed) children)")
  case (Inl e)
  with assms show ?thesis by simp
next
  case (Inr b)
  show ?thesis
  proof (cases b)
    case True
    with Inr assms have r: "r = \<lparr>satisfied = True, missing = []\<rparr>" by simp
    from Inr True have "anySatisfied (map (validate completed) children) = Inr True"
      by simp
    from anySatisfied_True[OF this] obtain rc where
      "Inr rc \<in> set (map (validate completed) children)" "satisfied rc" by blast
    then obtain c where "c \<in> set children" "Inr rc = validate completed c" "satisfied rc"
      by auto
    then have "c \<in> set children \<and> validate completed c = Inr rc \<and> satisfied rc" by simp
    then have "\<exists>c \<in> set children. \<exists>rc. validate completed c = Inr rc \<and> satisfied rc"
      by blast
    with r show ?thesis by simp
  next
    case False
    with Inr have f: "anySatisfied (map (validate completed) children) = Inr False"
      by simp
    have none: "\<not> (\<exists>c \<in> set children. \<exists>rc. validate completed c = Inr rc \<and> satisfied rc)"
    proof
      assume "\<exists>c \<in> set children. \<exists>rc. validate completed c = Inr rc \<and> satisfied rc"
      then obtain c rc where c: "c \<in> set children" "validate completed c = Inr rc" "satisfied rc"
        by blast
      from c(1) have "validate completed c \<in> set (map (validate completed) children)"
        by simp
      with f[unfolded anySatisfied_False] obtain rc' where
        "validate completed c = Inr rc'" "\<not> satisfied rc'" by blast
      with c show False by simp
    qed
    show ?thesis
    proof (cases "collectLeafCodes (OR children)")
      case (Inl e)
      with assms f show ?thesis by (simp del: collectLeafCodes.simps)
    next
      case o: (Inr opts)
      with assms f have r: "r = \<lparr>satisfied = False, missing = [MissingOr opts]\<rparr>"
        by (simp del: collectLeafCodes.simps)
      from o have "opts = leafCodes (OR children)" unfolding collectLeafCodes_Inr by simp
      with r none show ?thesis by simp
    qed
  qed
qed

lemma validate_AND_result:
  assumes "validate completed (AND children) = Inr r"
  shows "(satisfied r \<longleftrightarrow>
            (\<forall>c \<in> set children. \<exists>rc. validate completed c = Inr rc \<and> satisfied rc)) \<and>
         missing r = concat (map (unsatisfiedMissing completed) children)"
proof -
  from assms obtain rr where rr: "map (validate completed) children = map Inr rr"
    using allSatisfied_returns by fastforce
  with assms have r: "r = \<lparr>satisfied = list_all satisfied rr,
      missing = concat (map (\<lambda>x. if satisfied x then [] else missing x) rr)\<rparr>"
    by (simp add: allSatisfied_map_Inr)
  from rr have "list_all satisfied rr \<longleftrightarrow>
      (\<forall>c \<in> set children. \<exists>rc. validate completed c = Inr rc \<and> satisfied rc)"
  proof (induction children arbitrary: rr)
    case Nil
    then show ?case by simp
  next
    case (Cons a children)
    then obtain x rr' where "rr = x # rr'" "validate completed a = Inr x"
      "map (validate completed) children = map Inr rr'"
      by (auto simp: Cons_eq_map_conv)
    with Cons.IH[of rr'] show ?case by auto
  qed
  moreover from rr have "concat (map (\<lambda>x. if satisfied x then [] else missing x) rr) =
      concat (map (unsatisfiedMissing completed) children)"
  proof (induction children arbitrary: rr)
    case Nil
    then show ?case by simp
  next
    case (Cons a children)
    then obtain x rr' where "rr = x # rr'" "validate completed a = Inr x"
      "map (validate completed) children = map Inr rr'"
      by (auto simp: Cons_eq_map_conv)
    with Cons.IH[of rr'] show ?case by (simp add: unsatisfiedMissing_def)
  qed
  ultimately show ?thesis using r by simp
qed

text \<open>
  Claim C5, as amended. For every AND tree and every completed set, when \<open>validate\<close>
  returns (as it does for every tree without absent nodes) the result is satisfied iff
  every child is satisfied; its missing list is the concatenation, in child order, of the
  missing lists of the unsatisfied children, holds no nested AND entry, and its length is
  the sum of the lengths of the unsatisfied children's missing lists. Against the empty
  completed set the result is unsatisfied when no node of the tree is absent and every AND
  and OR node has at least one child.
\<close>

theorem validate_allOf:
  "(validate completed (AND children) = Inr r \<longrightarrow>
      (satisfied r \<longleftrightarrow>
         (\<forall>c \<in> set children. \<exists>rc. validate completed c = Inr rc \<and> satisfied rc)) \<and>
      missing r = concat (map (unsatisfiedMissing completed) children) \<and>
      \<not> list_ex isMissingAnd (missing r) \<and>
      length (missing r) = sum_list (map (\<lambda>c. length (unsatisfiedMissing completed c)) children))
   \<and> (nullFree (AND children) \<longrightarrow> (\<exists>r'. validate completed (AND children) = Inr r'))
   \<and> (populated (AND children) \<longrightarrow>
        (\<exists>r'. validate {} (AND children) = Inr r' \<and> \<not> satisfied r' \<and>
           length (missing r') = sum_list (map (\<lambda>c. length (unsatisfiedMissing {} c)) children)))"
proof -
  have len: "length (missing x) = sum_list (map (\<lambda>c. length (unsatisfiedMissing S c)) children)"
    if "validate S (AND children) = Inr x" for S x
    using validate_AND_result[OF that] by (simp add: length_concat comp_def)
  have "\<exists>r'. validate {} (AND children) = Inr r' \<and> \<not> satisfied r' \<and>
      length (missing r') = sum_list (map (\<lambda>c. length (unsatisfiedMissing {} c)) children)"
    if "populated (AND children)"
    using validate_empty_unsatisfied[OF that] len by blast
  then show ?thesis
    using validate_AND_result[of completed children r] validate_no_MissingAnd[of completed "AND children" r]
      len[of completed r] validate_total[of "AND children" completed]
    by blast
qed

text \<open>The witness: an AND of two courses, one of them completed, and against the empty set.\<close>

theorem validate_allOf_witness:
  "validate {''ECE355H1''} (AND [COURSE ''ECE355H1'', COURSE ''MIE286H1'']) =
      Inr \<lparr>satisfied = False, missing = [MissingCourse ''MIE286H1'']\<rparr>
   \<and> \<not> (\<forall>c \<in> set [COURSE ''ECE355H1'', COURSE ''MIE286H1''].
          \<exists>rc. validate {''ECE355H1''} c = Inr rc \<and> satisfied rc)
   \<and> nullFree (AND [COURSE ''ECE355H1'', COURSE ''MIE286H1''])
   \<and> populated (AND [COURSE ''ECE355H1'', COURSE ''MIE286H1''])
   \<and> (\<exists>r'. validate {} (AND [COURSE ''ECE355H1'', COURSE ''MIE286H1'']) = Inr r' \<and>
          \<not> satisfied r' \<and> length (missing r') = 2)"
proof -
  let ?cs = "[COURSE ''ECE355H1'', COURSE ''MIE286H1'']"
  let ?r = "\<lparr>satisfied = False, missing = [MissingCourse ''MIE286H1'']\<rparr>"
  have v: "validate {''ECE355H1''} (AND ?cs) = Inr ?r" by (simp add: Let_def)
  have p: "populated (AND ?cs)" and n: "nullFree (AND ?cs)" by simp_all
  have l: "sum_list (map (\<lambda>c. length (unsatisfiedMissing {} c)) ?cs) = 2"
    by (simp add: unsatisfiedMissing_def Let_def)
  from validate_allOf[of "{''ECE355H1''}" ?cs ?r] v p n l show ?thesis
    by (simp del: validate.simps populated.simps nullFree.simps)
qed

text \<open>
  Claim C5 as stated fails against the empty completed set: an AND node without children
  is satisfied, and so is the AND node the parser builds from two references that have
  no entry in the catalog.
\<close>

theorem validate_allOf_empty_set_counterexample:
  "validate {} (AND []) = Inr \<lparr>satisfied = True, missing = []\<rparr>
   \<and> map_option fst (parseCourseset
        \<lparr>courses = Map.empty,
         coursesets = [''ECE100H1_p3'' \<mapsto> ''ECE100H1_p1 & ECE100H1_p2'']\<rparr>
        Map.empty (Some ''ECE100H1_p3'')) = Some (AND [NULL, NULL])
   \<and> validate {} (AND [NULL, NULL]) = Inr \<lparr>satisfied = True, missing = []\<rparr>"
proof -
  have "map_option fst (parseCourseset
        \<lparr>courses = Map.empty,
         coursesets = [''ECE100H1_p3'' \<mapsto> ''ECE100H1_p1 & ECE100H1_p2'']\<rparr>
        Map.empty (Some ''ECE100H1_p3'')) = Some (AND [NULL, NULL])"
    by code_simp
  then show ?thesis by simp
qed

text \<open>
  Claim C4. The catalog entry \<open>ECE464H1_p1\<close> names a courseset that has no entry, so the
  parsed OR tree has an absent node below its first child. Against the empty set no child
  is satisfied, and \<open>validate\<close> throws in \<open>collectLeafCodes\<close> instead of returning the
  single OR entry. (\<open>validate_OR_result\<close> and \<open>validate_total\<close> above show the claim for
  every OR tree without absent nodes.)
\<close>

theorem validate_anyOf_absent_descendant:
  "map_option fst (parseCourseset
        \<lparr>courses = Map.empty,
         coursesets = [''ECE464H1_p3'' \<mapsto> ''ECE464H1_p1 / ECE464H1_p2'',
                       ''ECE464H1_p1'' \<mapsto> ''ECE464H1_p9 & ECE316H1'',
                       ''ECE464H1_p2'' \<mapsto> ''ECE417H1 & MIE286H1'']\<rparr>
        Map.empty (Some ''ECE464H1_p3''))
     = Some (OR [AND [NULL, COURSE ''ECE316H1''], AND [COURSE ''ECE417H1'', COURSE ''MIE286H1'']])
   \<and> validate {} (AND [NULL, COURSE ''ECE316H1'']) =
        Inr \<lparr>satisfied = False, missing = [MissingCourse ''ECE316H1'']\<rparr>
   \<and> validate {} (AND [COURSE ''ECE417H1'', COURSE ''MIE286H1'']) =
        Inr \<lparr>satisfied = False, missing = [MissingCourse ''ECE417H1'', MissingCourse ''MIE286H1'']\<rparr>
   \<and> validate {} (OR [AND [NULL, COURSE ''ECE316H1''],
                      AND [COURSE ''ECE417H1'', COURSE ''MIE286H1'']]) = Inl TypeError"
proof -
  have "map_option fst (parseCourseset
        \<lparr>courses = Map.empty,
         coursesets = [''ECE464H1_p3'' \<mapsto> ''ECE464H1_p1 / ECE464H1_p2'',
                       ''ECE464H1_p1'' \<mapsto> ''ECE464H1_p9 & ECE316H1'',
                       ''ECE464H1_p2'' \<mapsto> ''ECE417H1 & MIE286H1'']\<rparr>
        Map.empty (Some ''ECE464H1_p3''))
     = Some (OR [AND [NULL, COURSE ''ECE316H1''], AND [COURSE ''ECE417H1'', COURSE ''MIE286H1'']])"
    by code_simp
  then show ?thesis by (simp add: Let_def)
qed

section \<open>Properties of the parser\<close>









lemma not_isCoursesetRef_Nil: "\<not> isCoursesetRef []"
  by (simp add: isCoursesetRef_def)

lemma parseTokens_of_closed:
  assumes f: "\<And>c sid y. f c sid = Some y \<Longrightarrow> dom c \<inter> S = {} \<Longrightarrow>
                (\<forall>x. sid = Some x \<longrightarrow> x \<notin> S) \<and> dom (snd y) \<inter> S = {}"
    and "parseTokens_of f c parts = Some (ts, c')" and "dom c \<inter> S = {}"
  shows "dom c' \<inter> S = {} \<and> (\<forall>p \<in> set parts. isCoursesetRef p \<longrightarrow> p \<notin> S)"
  using assms(2,3)
proof (induction parts arbitrary: c ts c')
  case Nil
  then show ?case by simp
next
  case (Cons p parts)
  from Cons.prems(1) obtain t c1 ts' where
    tok: "parseToken_of f c p = Some (t, c1)" and
    rest: "parseTokens_of f c1 parts = Some (ts', c')"
    by (auto simp: bind_eq_Some_conv)
  have c1: "dom c1 \<inter> S = {}" and p: "isCoursesetRef p \<longrightarrow> p \<notin> S"
  proof -
    show "dom c1 \<inter> S = {}"
    proof (cases "isCoursesetRef p")
      case True
      with tok have "f c (Some p) = Some (t, c1)" by (simp add: parseToken_of_def)
      from f[OF this Cons.prems(2)] show ?thesis by simp
    next
      case False
      with tok Cons.prems(2) show ?thesis by (simp add: parseToken_of_def)
    qed
    show "isCoursesetRef p \<longrightarrow> p \<notin> S"
    proof
      assume "isCoursesetRef p"
      with tok have "f c (Some p) = Some (t, c1)" by (simp add: parseToken_of_def)
      from f[OF this Cons.prems(2)] show "p \<notin> S" by simp
    qed
  qed
  from Cons.IH[OF rest c1] p show ?case by simp
qed

lemma parseExpression_of_closed:
  assumes f: "\<And>c sid y. f c sid = Some y \<Longrightarrow> dom c \<inter> S = {} \<Longrightarrow>
                (\<forall>x. sid = Some x \<longrightarrow> x \<notin> S) \<and> dom (snd y) \<inter> S = {}"
    and "parseExpression_of f c expr = Some (t, c')" and "dom c \<inter> S = {}"
  shows "dom c' \<inter> S = {} \<and> (\<forall>p \<in> set (tokensOf expr). isCoursesetRef p \<longrightarrow> p \<notin> S)"
proof (cases "includesStr (trim expr) '' & ''")
  case True
  with assms(2) obtain ts where
    "parseTokens_of f c (map trim (splitStr (trim expr) '' & '')) = Some (ts, c')"
    by (auto simp: parseExpression_of_def Let_def bind_eq_Some_conv)
  from parseTokens_of_closed[OF f this assms(3)] True show ?thesis
    by (simp add: tokensOf_def Let_def)
next
  case nand: False
  show ?thesis
  proof (cases "includesStr (trim expr) '' / ''")
    case True
    with nand assms(2) obtain ts where
      "parseTokens_of f c (map trim (splitStr (trim expr) '' / '')) = Some (ts, c')"
      by (auto simp: parseExpression_of_def Let_def bind_eq_Some_conv)
    from parseTokens_of_closed[OF f this assms(3)] True nand show ?thesis
      by (simp add: tokensOf_def Let_def)
  next
    case False
    with nand assms(2) have "parseTokens_of f c [trim expr] = Some ([t], c')"
      by (simp add: parseExpression_of_def Let_def)
    from parseTokens_of_closed[OF f this assms(3)] False nand show ?thesis
      by (simp add: tokensOf_def Let_def)
  qed
qed

lemma parseCourseset_closed_aux:
  assumes closed: "\<forall>x \<in> S. x \<noteq> [] \<and> (\<exists>y \<in> S. (x, y) \<in> references db)"
    and "parseCourseset db' cache setId = Some y"
  shows "db' = db \<longrightarrow> dom cache \<inter> S = {} \<longrightarrow>
           (\<forall>x. setId = Some x \<longrightarrow> x \<notin> S) \<and> dom (snd y) \<inter> S = {}"
proof (rule parseCourseset.raw_induct[where P = "\<lambda>db' cache setId y. db' = db \<longrightarrow>
    dom cache \<inter> S = {} \<longrightarrow> (\<forall>x. setId = Some x \<longrightarrow> x \<notin> S) \<and> dom (snd y) \<inter> S = {}",
    OF _ assms(2)], goal_cases)
  case (1 f db' cache setId y)
  show ?case
  proof (intro impI)
    assume db: "db' = db" and c: "dom cache \<inter> S = {}"
    have f: "\<And>c sid y. f db c sid = Some y \<Longrightarrow> dom c \<inter> S = {} \<Longrightarrow>
                (\<forall>x. sid = Some x \<longrightarrow> x \<notin> S) \<and> dom (snd y) \<inter> S = {}"
      using 1(1) by blast
    show "(\<forall>x. setId = Some x \<longrightarrow> x \<notin> S) \<and> dom (snd y) \<inter> S = {}"
    proof (cases setId)
      case None
      with 1(2) have "snd y = cache" by auto
      with c None show ?thesis by simp
    next
      case (Some sid)
      show ?thesis
      proof (cases "sid = []")
        case True
        with Some 1(2) have "snd y = cache" by auto
        with c Some True closed show ?thesis by auto
      next
        case ne: False
        show ?thesis
        proof (cases "cache sid")
          case (Some tree)
          with \<open>setId = Some sid\<close> ne 1(2) have "snd y = cache" by auto
          moreover from Some c have "sid \<notin> S" by auto
          ultimately show ?thesis using c \<open>setId = Some sid\<close> by simp
        next
          case nc: None
          show ?thesis
          proof (cases "coursesets db sid")
            case None
            then have "sid \<notin> S" using closed by (auto simp: references_def)
            moreover from None \<open>setId = Some sid\<close> ne nc 1(2) db have "snd y = cache" by auto
            ultimately show ?thesis using c \<open>setId = Some sid\<close> by simp
          next
            case (Some cs)
            with \<open>setId = Some sid\<close> ne nc 1(2) db obtain t c' where
              pe: "parseExpression_of (f db) cache cs = Some (t, c')" and
              y: "y = (t, c'(sid \<mapsto> t))"
              by (auto simp: bind_eq_Some_conv)
            from parseExpression_of_closed[OF f pe c] have
              c': "dom c' \<inter> S = {}" and
              toks: "\<forall>p \<in> set (tokensOf cs). isCoursesetRef p \<longrightarrow> p \<notin> S" by simp_all
            have "sid \<notin> S"
            proof
              assume "sid \<in> S"
              with closed obtain z where "z \<in> S" "(sid, z) \<in> references db" by blast
              with Some toks show False by (auto simp: references_def)
            qed
            with c' y \<open>setId = Some sid\<close> show ?thesis by auto
          qed
        qed
      qed
    qed
  qed
qed

lemma parseCourseset_closed:
  assumes "\<forall>x \<in> S. x \<noteq> [] \<and> (\<exists>y \<in> S. (x, y) \<in> references db)"
    and "\<forall>x \<in> S. cache x = None" and "x \<in> S"
  shows "parseCourseset db cache (Some x) = None"
proof (rule ccontr)
  assume "parseCourseset db cache (Some x) \<noteq> None"
  then obtain y where "parseCourseset db cache (Some x) = Some y" by blast
  from parseCourseset_closed_aux[OF assms(1) this] assms(2,3) show False by auto
qed

lemma references_isCoursesetRef: "(x, y) \<in> (references db)\<^sup>+ \<Longrightarrow> isCoursesetRef y"
  by (induction rule: trancl.induct) (auto simp: references_def)

text \<open>
  Claim C3, as amended. When a courseset id transitively references itself and no id it
  reaches is cached, resolving it does not return: nothing guards the recursion (in
  JavaScript it ends when the call stack overflows), the cyclic reference is not treated
  as absent and no cycle error is reported.
\<close>

theorem parseCourseset_cycle_diverges:
  assumes "(x, x) \<in> (references db)\<^sup>+"
    and "\<forall>y. (x, y) \<in> (references db)\<^sup>+ \<longrightarrow> cache y = None"
  shows "parseCourseset db cache (Some x) = None"
proof -
  define S where "S = {y. (x, y) \<in> (references db)\<^sup>+ \<and> (y, x) \<in> (references db)\<^sup>+}"
  have "\<forall>y \<in> S. y \<noteq> [] \<and> (\<exists>z \<in> S. (y, z) \<in> references db)"
  proof
    fix y assume y: "y \<in> S"
    then have xy: "(x, y) \<in> (references db)\<^sup>+" and yx: "(y, x) \<in> (references db)\<^sup>+"
      by (simp_all add: S_def)
    from references_isCoursesetRef[OF xy] have "y \<noteq> []"
      using not_isCoursesetRef_Nil by auto
    moreover from tranclD[OF yx] obtain z where
      yz: "(y, z) \<in> references db" and zx: "(z, x) \<in> (references db)\<^sup>*" by blast
    from xy yz have xz: "(x, z) \<in> (references db)\<^sup>+" by (rule trancl.trancl_into_trancl)
    from zx assms(1) have "(z, x) \<in> (references db)\<^sup>+" by (rule rtrancl_trancl_trancl)
    with xz have "z \<in> S" by (simp add: S_def)
    with yz have "\<exists>z \<in> S. (y, z) \<in> references db" by blast
    ultimately show "y \<noteq> [] \<and> (\<exists>z \<in> S. (y, z) \<in> references db)" by simp
  qed
  moreover have "\<forall>y \<in> S. cache y = None" using assms(2) by (simp add: S_def)
  moreover have "x \<in> S" using assms(1) by (simp add: S_def)
  ultimately show ?thesis by (rule parseCourseset_closed)
qed

text \<open>The witness: an entry that names itself among its tokens.\<close>

theorem parseCourseset_cycle_diverges_witness:
  "(''ECE435H1_p6'', ''ECE435H1_p6'') \<in>
      (references \<lparr>courses = Map.empty, coursesets =
         [''ECE435H1_p6'' \<mapsto> ''ECE435H1_p1 & ECE435H1_p6'',
          ''ECE435H1_p1'' \<mapsto> ''ECE216H1 / ECE355H1'']\<rparr>)\<^sup>+
   \<and> parseCourseset \<lparr>courses = Map.empty, coursesets =
         [''ECE435H1_p6'' \<mapsto> ''ECE435H1_p1 & ECE435H1_p6'',
          ''ECE435H1_p1'' \<mapsto> ''ECE216H1 / ECE355H1'']\<rparr> Map.empty (Some ''ECE435H1_p6'') = None"
proof -
  let ?db = "\<lparr>courses = Map.empty, coursesets =
         [''ECE435H1_p6'' \<mapsto> ''ECE435H1_p1 & ECE435H1_p6'',
          ''ECE435H1_p1'' \<mapsto> ''ECE216H1 / ECE355H1'']\<rparr>"
  have t: "tokensOf ''ECE435H1_p1 & ECE435H1_p6'' = [''ECE435H1_p1'', ''ECE435H1_p6'']"
    by code_simp
  have r: "isCoursesetRef ''ECE435H1_p6''" by code_simp
  have "(''ECE435H1_p6'', ''ECE435H1_p6'') \<in> references ?db"
    using t r by (simp add: references_def)
  then have c: "(''ECE435H1_p6'', ''ECE435H1_p6'') \<in> (references ?db)\<^sup>+" by (rule r_into_trancl)
  have "\<forall>y. (''ECE435H1_p6'', y) \<in> (references ?db)\<^sup>+ \<longrightarrow> Map.empty y = (None :: ast option)"
    by simp
  from parseCourseset_cycle_diverges[OF c this] c show ?thesis by simp
qed

text \<open>
  Claim C3 as stated fails on a cycle of two ids: the call does not return. With the ids
  \<open>X_p1\<close> and \<open>Y_p1\<close>, which do not have the form of a courseset reference, the call
  returns the course leaf \<open>Y_p1\<close>.
\<close>

theorem parseCourseset_two_cycle_counterexample:
  "parseCourseset \<lparr>courses = Map.empty, coursesets =
       [''ECE100H1_p1'' \<mapsto> ''ECE100H1_p2'', ''ECE100H1_p2'' \<mapsto> ''ECE100H1_p1'']\<rparr>
     Map.empty (Some ''ECE100H1_p1'') = None
   \<and> map_option fst (parseCourseset \<lparr>courses = Map.empty, coursesets =
       [''X_p1'' \<mapsto> ''Y_p1'', ''Y_p1'' \<mapsto> ''X_p1'']\<rparr> Map.empty (Some ''X_p1''))
     = Some (COURSE ''Y_p1'')"
proof -
  let ?db = "\<lparr>courses = Map.empty, coursesets =
       [''ECE100H1_p1'' \<mapsto> ''ECE100H1_p2'', ''ECE100H1_p2'' \<mapsto> ''ECE100H1_p1'']\<rparr>"
  have t: "tokensOf ''ECE100H1_p1'' = [''ECE100H1_p1'']"
    "tokensOf ''ECE100H1_p2'' = [''ECE100H1_p2'']" by code_simp+
  have r: "isCoursesetRef ''ECE100H1_p1''" "isCoursesetRef ''ECE100H1_p2''" by code_simp+
  have "\<forall>x \<in> {''ECE100H1_p1'', ''ECE100H1_p2''}. x \<noteq> [] \<and>
      (\<exists>y \<in> {''ECE100H1_p1'', ''ECE100H1_p2''}. (x, y) \<in> references ?db)"
    using t r by (simp add: references_def)
  moreover have "\<forall>x \<in> {''ECE100H1_p1'', ''ECE100H1_p2''}. Map.empty x = (None :: ast option)"
    by simp
  moreover have "''ECE100H1_p1'' \<in> {''ECE100H1_p1'', ''ECE100H1_p2''}" by simp
  ultimately have "parseCourseset ?db Map.empty (Some ''ECE100H1_p1'') = None"
    by (rule parseCourseset_closed)
  moreover have "map_option fst (parseCourseset \<lparr>courses = Map.empty, coursesets =
       [''X_p1'' \<mapsto> ''Y_p1'', ''Y_p1'' \<mapsto> ''X_p1'']\<rparr> Map.empty (Some ''X_p1''))
     = Some (COURSE ''Y_p1'')"
    by code_simp
  ultimately show ?thesis by simp
qed

lemma parseTokens_of_grows:
  assumes f: "\<And>c sid y. f c sid = Some y \<Longrightarrow> c \<subseteq>\<^sub>m snd y"
    and "parseTokens_of f c parts = Some (ts, c')"
  shows "c \<subseteq>\<^sub>m c'"
  using assms(2)
proof (induction parts arbitrary: c ts c')
  case Nil
  then show ?case by simp
next
  case (Cons p parts)
  from Cons.prems obtain t c1 ts' where
    tok: "parseToken_of f c p = Some (t, c1)" and
    rest: "parseTokens_of f c1 parts = Some (ts', c')"
    by (auto simp: bind_eq_Some_conv)
  have "c \<subseteq>\<^sub>m c1"
  proof (cases "isCoursesetRef p")
    case True
    with tok have "f c (Some p) = Some (t, c1)" by (simp add: parseToken_of_def)
    from f[OF this] show ?thesis by simp
  next
    case False
    with tok show ?thesis by (simp add: parseToken_of_def)
  qed
  from this Cons.IH[OF rest] show ?case by (rule map_le_trans)
qed

lemma parseExpression_of_grows:
  assumes f: "\<And>c sid y. f c sid = Some y \<Longrightarrow> c \<subseteq>\<^sub>m snd y"
    and "parseExpression_of f c expr = Some (t, c')"
  shows "c \<subseteq>\<^sub>m c'"
proof (cases "includesStr (trim expr) '' & ''")
  case True
  with assms(2) obtain ts where
    "parseTokens_of f c (map trim (splitStr (trim expr) '' & '')) = Some (ts, c')"
    by (auto simp: parseExpression_of_def Let_def bind_eq_Some_conv)
  from parseTokens_of_grows[OF f this] show ?thesis .
next
  case nand: False
  show ?thesis
  proof (cases "includesStr (trim expr) '' / ''")
    case True
    with nand assms(2) obtain ts where
      "parseTokens_of f c (map trim (splitStr (trim expr) '' / '')) = Some (ts, c')"
      by (auto simp: parseExpression_of_def Let_def bind_eq_Some_conv)
    from parseTokens_of_grows[OF f this] show ?thesis .
  next
    case False
    with nand assms(2) have "parseTokens_of f c [trim expr] = Some ([t], c')"
      by (simp add: parseExpression_of_def Let_def)
    from parseTokens_of_grows[OF f this] show ?thesis .
  qed
qed

lemma parseCourseset_grows:
  assumes "parseCourseset db cache setId = Some y"
  shows "cache \<subseteq>\<^sub>m snd y"
proof (rule parseCourseset.raw_induct[where P = "\<lambda>db cache setId y. cache \<subseteq>\<^sub>m snd y",
    OF _ assms], goal_cases)
  case (1 f db cache setId y)
  have f: "\<And>c sid y. f db c sid = Some y \<Longrightarrow> c \<subseteq>\<^sub>m snd y"
    using 1(1) by blast
  show ?case
  proof (cases setId)
    case None
    with 1(2) have "snd y = cache" by auto
    then show ?thesis by simp
  next
    case (Some sid)
    show ?thesis
    proof (cases "sid = [] \<or> cache sid \<noteq> None \<or> coursesets db sid = None")
      case True
      with Some 1(2) have "snd y = cache" by (auto split: if_splits option.splits)
      then show ?thesis by simp
    next
      case False
      then obtain cs where cs: "coursesets db sid = Some cs" and nc: "cache sid = None"
        and ne: "sid \<noteq> []" by auto
      with Some 1(2) obtain t c' where
        pe: "parseExpression_of (f db) cache cs = Some (t, c')" and
        y: "y = (t, c'(sid \<mapsto> t))"
        by (auto simp: bind_eq_Some_conv)
      from parseExpression_of_grows[OF f pe] have "cache \<subseteq>\<^sub>m c'" .
      with nc have "cache \<subseteq>\<^sub>m c'(sid \<mapsto> t)"
        by (auto simp: map_le_def dom_def)
      with y show ?thesis by simp
    qed
  qed
qed

lemma parseCourseset_stored:
  assumes "parseCourseset db cache (Some sid) = Some (t, c')" and "sid \<noteq> []"
  shows "c' sid = Some t \<or> (t = NULL \<and> c' = cache)"
  using assms
  by (subst (asm) parseCourseset.simps)
     (auto simp: bind_eq_Some_conv split: if_splits option.splits)

section \<open>Properties of the placement validator\<close>

lemma parseCourseset_absent:
  "parseCourseset db cache None = Some (NULL, cache)"
  "parseCourseset db cache (Some []) = Some (NULL, cache)"
  "sid \<noteq> [] \<Longrightarrow> cache sid = None \<Longrightarrow> coursesets db sid = None \<Longrightarrow>
     parseCourseset db cache (Some sid) = Some (NULL, cache)"
  by (simp_all add: parseCourseset.simps)

lemma parseCourseset_cached:
  "sid \<noteq> [] \<Longrightarrow> cache sid = Some tree \<Longrightarrow>
     parseCourseset db cache (Some sid) = Some (tree, cache)"
  by (simp add: parseCourseset.simps)

text \<open>
  Claim C7. An exclusions id without an entry in the catalog resolves to \<open>null\<close>, and
  \<open>validate\<close> is satisfied on \<open>null\<close>; the exclusion block takes a satisfied result for a
  conflict and calls \<open>collectLeafCodes(null)\<close>, which throws. Prerequisite and
  corequisite ids without an entry pass.
\<close>

theorem unresolved_exclusion_throws:
  "parseCourseset \<lparr>courses = [''ECE430H1'' \<mapsto>
        \<lparr>code = ''ECE430H1'', session = ''F'', prerequisites = None, corequisites = None,
         exclusions = Some ''ECE430H1_e1''\<rparr>], coursesets = Map.empty\<rparr>
      Map.empty (Some ''ECE430H1_e1'') = Some (NULL, Map.empty)
   \<and> validate {} NULL = Inr \<lparr>satisfied = True, missing = []\<rparr>
   \<and> validatePlacement \<lparr>courses = [''ECE430H1'' \<mapsto>
        \<lparr>code = ''ECE430H1'', session = ''F'', prerequisites = None, corequisites = None,
         exclusions = Some ''ECE430H1_e1''\<rparr>], coursesets = Map.empty\<rparr>
      Map.empty (Code ''ECE430H1'') ''fall-1''
      [(''fall-1'', [Code ''ECE430H1'', Null, Null, Null, Null])] [''fall-1'']
     = Some (Inl TypeError, Map.empty)
   \<and> validatePlacement \<lparr>courses = [''ECE430H1'' \<mapsto>
        \<lparr>code = ''ECE430H1'', session = ''F'', prerequisites = Some ''ECE430H1_p1'',
         corequisites = Some ''ECE430H1_c1'', exclusions = None\<rparr>], coursesets = Map.empty\<rparr>
      Map.empty (Code ''ECE430H1'') ''fall-1''
      [(''fall-1'', [Code ''ECE430H1'', Null, Null, Null, Null])] [''fall-1'']
     = Some (Inr \<lparr>valid = True, errors = []\<rparr>, Map.empty)"
  by (simp add: validatePlacement_def andThen_def checkPrerequisites_def checkCorequisites_def
      checkExclusions_def truthyId_def parseCourseset_absent getCoursesBeforeSemester_def
      getCoursesUpToSemester_def Let_def)

text \<open>
  The keys of the result of \<open>validateAll\<close>, when it returns: the values of all the slots
  of the semesters of the order, whatever they are.
\<close>

lemma validateSlots_keys:
  "validateSlots db cache semId g semesterOrder res slots = Some (Inr res', cache')
   \<Longrightarrow> fst ` set res' = fst ` set res \<union> set slots"
proof (induction slots arbitrary: cache res)
  case Nil
  then show ?case by simp
next
  case (Cons courseCode slots)
  from Cons.prems obtain r c1 where
    "validatePlacement db cache courseCode semId g semesterOrder = Some (Inr r, c1)" and
    rest: "validateSlots db c1 semId g semesterOrder (AList.update courseCode r res) slots =
      Some (Inr res', cache')"
    by (auto split: option.splits sum.splits prod.splits)
  from Cons.IH[OF rest] show ?case by (simp add: dom_update)
qed

lemma validateSemesters_keys:
  "validateSemesters db cache g semesterOrder res ids = Some (Inr res', cache')
   \<Longrightarrow> fst ` set res' =
         fst ` set res \<union> {v. \<exists>semId \<in> set ids. \<exists>slots. map_of g semId = Some slots \<and> v \<in> set slots}"
proof (induction ids arbitrary: cache res)
  case Nil
  then show ?case by simp
next
  case (Cons semId ids)
  from Cons.prems obtain slots res1 c1 where
    m: "map_of g semId = Some slots" and
    s: "validateSlots db cache semId g semesterOrder res slots = Some (Inr res1, c1)" and
    rest: "validateSemesters db c1 g semesterOrder res1 ids = Some (Inr res', cache')"
    by (auto split: option.splits sum.splits prod.splits)
  from Cons.IH[OF rest] validateSlots_keys[OF s] m show ?case by auto
qed

lemma validateAll_keys:
  assumes "validateAll db cache g semesterOrder = Some (Inr res, cache')"
  shows "fst ` set res =
           {v. \<exists>semId \<in> set semesterOrder. \<exists>slots. map_of g semId = Some slots \<and> v \<in> set slots}"
  using validateSemesters_keys[of db cache g semesterOrder "[]" semesterOrder res cache'] assms
  by (simp add: validateAll_def)

text \<open>
  Claim C8. With one course placed in a semester of five slots, the result of
  \<open>validateAll\<close> has two keys: the course code and \<open>null\<close>, the value of the four empty
  slots.
\<close>

theorem validateAll_keys_include_null:
  "validateAll \<lparr>courses = [''APS105H1'' \<mapsto>
        \<lparr>code = ''APS105H1'', session = ''F'', prerequisites = None, corequisites = None,
         exclusions = None\<rparr>], coursesets = Map.empty\<rparr>
      Map.empty
      (snd (addCourse (initSemesters [] [''fall-1'']) ''fall-1'' 0 ''APS105H1''))
      [''fall-1'']
     = Some (Inr [(Code ''APS105H1'', \<lparr>valid = True, errors = []\<rparr>),
                  (Null, \<lparr>valid = True, errors = []\<rparr>)], Map.empty)"
  by (simp add: validateAll_def validatePlacement_def andThen_def checkPrerequisites_def
      checkCorequisites_def checkExclusions_def truthyId_def addCourse_def
      slotsPerSemester_def readSlot_def writeSlot_def numeral_eq_Suc Let_def)








lemma checkPrerequisites_Inr:
  assumes "checkPrerequisites db cache course semesterId g semesterOrder errs = Some (Inr errs', c1)"
  shows "if truthyId (prerequisites course) then
           (\<exists>S t r. getCoursesBeforeSemester g semesterId semesterOrder = Inr S \<and>
              parseCourseset db cache (prerequisites course) = Some (t, c1) \<and>
              validate S t = Inr r \<and>
              errs' = (if \<not> satisfied r then errs @ [Prerequisite (missing r)] else errs))
         else errs' = errs \<and> c1 = cache"
  using assms unfolding checkPrerequisites_def
  by (auto split: if_splits sum.splits option.splits prod.splits)

lemma checkCorequisites_Inr:
  assumes "checkCorequisites db cache course semesterId g semesterOrder errs = Some (Inr errs', c1)"
  shows "if truthyId (corequisites course) then
           (\<exists>S t r. getCoursesUpToSemester g semesterId semesterOrder = Inr S \<and>
              parseCourseset db cache (corequisites course) = Some (t, c1) \<and>
              validate S t = Inr r \<and>
              errs' = (if \<not> satisfied r then errs @ [Corequisite (missing r)] else errs))
         else errs' = errs \<and> c1 = cache"
  using assms unfolding checkCorequisites_def
  by (auto split: if_splits sum.splits option.splits prod.splits)

lemma checkExclusions_Inr:
  assumes "checkExclusions db cache course x g errs = Some (Inr errs', c1)"
  shows "if truthyId (exclusions course) then
           (\<exists>t r. parseCourseset db cache (exclusions course) = Some (t, c1) \<and>
              validate (getAllPlacedCourses g - {x}) t = Inr r \<and>
              (if satisfied r then
                 nullFree t \<and>
                 errs' = errs @ [Exclusion (filter (\<lambda>c. c \<in> getAllPlacedCourses g - {x})
                                              (leafCodes t))]
               else errs' = errs))
         else errs' = errs \<and> c1 = cache"
  using assms unfolding checkExclusions_def Let_def
  by (auto split: if_splits sum.splits option.splits prod.splits simp: collectLeafCodes_Inr)

lemma checkPrerequisites_grows:
  "checkPrerequisites db cache course semesterId g semesterOrder errs = Some (Inr errs', c1)
   \<Longrightarrow> cache \<subseteq>\<^sub>m c1"
  using checkPrerequisites_Inr[of db cache course semesterId g semesterOrder errs errs' c1]
    parseCourseset_grows[of db cache "prerequisites course"]
  by (cases "truthyId (prerequisites course)") auto

lemma checkCorequisites_grows:
  "checkCorequisites db cache course semesterId g semesterOrder errs = Some (Inr errs', c1)
   \<Longrightarrow> cache \<subseteq>\<^sub>m c1"
  using checkCorequisites_Inr[of db cache course semesterId g semesterOrder errs errs' c1]
    parseCourseset_grows[of db cache "corequisites course"]
  by (cases "truthyId (corequisites course)") auto

lemma andThen_Inr:
  "andThen m f = Some (Inr b, c) \<Longrightarrow> \<exists>a c0. m = Some (Inr a, c0) \<and> f a c0 = Some (Inr b, c)"
  by (auto simp: andThen_def split: option.splits sum.splits prod.splits)

lemma validatePlacement_Inr:
  assumes "courses db x = Some course"
    and "validatePlacement db cache (Code x) semesterId g semesterOrder = Some (Inr res, cache')"
  shows "\<exists>e1 c1 e2 c2.
           checkPrerequisites db cache course semesterId g semesterOrder [] = Some (Inr e1, c1) \<and>
           checkCorequisites db c1 course semesterId g semesterOrder e1 = Some (Inr e2, c2) \<and>
           checkExclusions db c2 course x g e2 = Some (Inr (errors res), cache') \<and>
           valid res = (errors res = [])"
proof -
  from assms have a: "andThen (checkPrerequisites db cache course semesterId g semesterOrder [])
      (\<lambda>errs1 cache1.
        andThen (checkCorequisites db cache1 course semesterId g semesterOrder errs1)
          (\<lambda>errs2 cache2.
            andThen (checkExclusions db cache2 course x g errs2)
              (\<lambda>errs3 cache3. Some (Inr \<lparr>valid = (errs3 = []), errors = errs3\<rparr>, cache3))))
      = Some (Inr res, cache')"
    by (simp add: validatePlacement_def)
  from andThen_Inr[OF a] obtain e1 c1 where
    p: "checkPrerequisites db cache course semesterId g semesterOrder [] = Some (Inr e1, c1)"
    and b: "andThen (checkCorequisites db c1 course semesterId g semesterOrder e1)
          (\<lambda>errs2 cache2.
            andThen (checkExclusions db cache2 course x g errs2)
              (\<lambda>errs3 cache3. Some (Inr \<lparr>valid = (errs3 = []), errors = errs3\<rparr>, cache3)))
      = Some (Inr res, cache')" by blast
  from andThen_Inr[OF b] obtain e2 c2 where
    q: "checkCorequisites db c1 course semesterId g semesterOrder e1 = Some (Inr e2, c2)"
    and c: "andThen (checkExclusions db c2 course x g e2)
              (\<lambda>errs3 cache3. Some (Inr \<lparr>valid = (errs3 = []), errors = errs3\<rparr>, cache3))
      = Some (Inr res, cache')" by blast
  from andThen_Inr[OF c] obtain e3 c3 where
    r: "checkExclusions db c2 course x g e2 = Some (Inr e3, c3)"
    and d: "Some (Inr \<lparr>valid = (e3 = []), errors = e3\<rparr>, c3) = Some (Inr res, cache')" by blast
  from d have "errors res = e3" "cache' = c3" "valid res = (e3 = [])" by auto
  with p q r show ?thesis by auto
qed

lemma parseCourseset_single_course:
  assumes "sid \<noteq> []" "cache sid = None" "coursesets db sid = Some cs"
    and "\<not> includesStr (trim cs) '' & ''" "\<not> includesStr (trim cs) '' / ''"
    and "\<not> isCoursesetRef (trim cs)"
  shows "parseCourseset db cache (Some sid) =
           Some (COURSE (trim cs), cache(sid \<mapsto> COURSE (trim cs)))"
  using assms
  by (simp add: parseCourseset.simps[of db cache "Some sid"] parseExpression_of_def
      parseToken_of_def)

lemma prerequisite_errors:
  assumes "checkPrerequisites db cache course semesterId g semesterOrder [] = Some (Inr e1, c1)"
    and "checkCorequisites db c1 course semesterId g semesterOrder e1 = Some (Inr e2, c2)"
    and "checkExclusions db c2 course x g e2 = Some (Inr e3, c3)"
  shows "Prerequisite m \<in> set e3 \<longleftrightarrow> Prerequisite m \<in> set e1"
    and "Corequisite m \<in> set e3 \<longleftrightarrow> Corequisite m \<in> set e2 \<and> Corequisite m \<notin> set e1"
    and "Exclusion d \<notin> set e2"
proof -
  from checkPrerequisites_Inr[OF assms(1)] have e1: "\<forall>e \<in> set e1. \<exists>m. e = Prerequisite m"
    by (auto split: if_splits)
  from checkCorequisites_Inr[OF assms(2)] have e2: "e2 = e1 \<or> (\<exists>m. e2 = e1 @ [Corequisite m])"
    by (auto split: if_splits)
  from checkExclusions_Inr[OF assms(3)] have e3: "e3 = e2 \<or> (\<exists>d. e3 = e2 @ [Exclusion d])"
    by (auto split: if_splits)
  from e1 e2 e3 show "Prerequisite m \<in> set e3 \<longleftrightarrow> Prerequisite m \<in> set e1" by auto
  from e1 e2 e3 show "Corequisite m \<in> set e3 \<longleftrightarrow> Corequisite m \<in> set e2 \<and> Corequisite m \<notin> set e1"
    by auto
  from e1 e2 show "Exclusion d \<notin> set e2" by auto
qed



lemma validate_cong_leaves:
  "(\<forall>c \<in> set (leafCodes t). c \<in> S \<longleftrightarrow> c \<in> S') \<Longrightarrow> validate S t = validate S' t"
proof (induction t)
  case NULL
  show ?case by simp
next
  case (COURSE c)
  then show ?case by (simp add: Let_def)
next
  case (OR children)
  have "map (validate S) children = map (validate S') children"
    using OR by (intro map_cong) auto
  then show ?case by (simp only: validate.simps)
next
  case (AND children)
  have "map (validate S) children = map (validate S') children"
    using AND by (intro map_cong) auto
  then show ?case by (simp only: validate.simps)
qed

lemma getAllPlacedCourses_removeCourse:
  assumes d: "distinct (map fst g)" and po: "placedOnce g"
    and y: "slotAt g s i = Some (Code y)"
  shows "getAllPlacedCourses (snd (removeCourse g s i)) = getAllPlacedCourses g - {y}"
proof -
  from y obtain slots where m: "map_of g s = Some slots"
    by (auto simp: slotAt_def split: option.splits)
  let ?g' = "AList.update s (writeSlot slots i Null) g"
  have g': "snd (removeCourse g s i) = ?g'" using m by (simp add: removeCourse_def)
  have d': "distinct (map fst ?g')" using d by (rule distinct_update)
  have at: "\<And>s' i'. slotAt ?g' s' i' = (if s' = s \<and> i' = i then Some Null else slotAt g s' i')"
    by (rule slotAt_write[OF m])
  have "(\<exists>s' i'. slotAt ?g' s' i' = Some (Code c)) \<longleftrightarrow>
        (\<exists>s' i'. slotAt g s' i' = Some (Code c)) \<and> c \<noteq> y" for c
  proof
    assume "\<exists>s' i'. slotAt ?g' s' i' = Some (Code c)"
    then obtain s' i' where h: "slotAt ?g' s' i' = Some (Code c)" by blast
    with at have ne: "\<not> (s' = s \<and> i' = i)" and g: "slotAt g s' i' = Some (Code c)"
      by (auto split: if_splits)
    from g ne y po have "c \<noteq> y" unfolding placedOnce_def by blast
    with g show "(\<exists>s' i'. slotAt g s' i' = Some (Code c)) \<and> c \<noteq> y" by blast
  next
    assume "(\<exists>s' i'. slotAt g s' i' = Some (Code c)) \<and> c \<noteq> y"
    then obtain s' i' where g: "slotAt g s' i' = Some (Code c)" and "c \<noteq> y" by blast
    with y have "\<not> (s' = s \<and> i' = i)" by auto
    with at g have "slotAt ?g' s' i' = Some (Code c)" by simp
    then show "\<exists>s' i'. slotAt ?g' s' i' = Some (Code c)" by blast
  qed
  then show ?thesis
    unfolding g' getAllPlacedCourses_slotAt[OF d] getAllPlacedCourses_slotAt[OF d'] by auto
qed

text \<open>
  Claim C2, as amended. Let a call of \<open>validatePlacement\<close> for a course \<open>x\<close> with an
  exclusions id return. Then the id has resolved to a tree (the one cached for it), an
  Exclusion error is reported iff the tree evaluates satisfied over all the codes placed
  anywhere in the grid without \<open>x\<close> itself, and its detail is the list of the tree's leaf
  codes that are in that set. \<open>removeCourse\<close> on the slot of a course takes its code out
  of the placed set. When no node of the tree is absent and every AND and OR node has a
  child, a revalidation (with the cache the first call left) in a grid where none of the
  tree's leaf codes is placed any more reports no Exclusion error.
\<close>

theorem validatePlacement_exclusion:
  assumes course: "courses db x = Some course"
    and excl: "exclusions course = Some sid" "sid \<noteq> []"
    and ret: "validatePlacement db cache (Code x) semesterId g semesterOrder =
                Some (Inr res, cache')"
  shows "\<exists>t r. cache' sid = Some t \<and>
           validate (getAllPlacedCourses g - {x}) t = Inr r \<and>
           ((\<exists>d. Exclusion d \<in> set (errors res)) \<longleftrightarrow> satisfied r) \<and>
           (\<forall>d. Exclusion d \<in> set (errors res) \<longrightarrow>
              d = filter (\<lambda>c. c \<in> getAllPlacedCourses g - {x}) (leafCodes t)) \<and>
           getAllPlacedCourses g = {c. c \<noteq> [] \<and> (\<exists>(s, slots) \<in> set g. Code c \<in> set slots)} \<and>
           (\<forall>s i y. distinct (map fst g) \<and> placedOnce g \<and> slotAt g s i = Some (Code y) \<longrightarrow>
              getAllPlacedCourses (snd (removeCourse g s i)) = getAllPlacedCourses g - {y}) \<and>
           (populated t \<longrightarrow>
              (\<forall>g' semesterId' semesterOrder' res' cache''.
                 (getAllPlacedCourses g' - {x}) \<inter> set (leafCodes t) = {} \<and>
                 validatePlacement db cache' (Code x) semesterId' g' semesterOrder' =
                   Some (Inr res', cache'') \<longrightarrow>
                 \<not> (\<exists>d. Exclusion d \<in> set (errors res'))))"
proof -
  have tr: "truthyId (exclusions course)" using excl by (simp add: truthyId_def)
  from validatePlacement_Inr[OF course ret] obtain e1 c1 e2 c2 where
    p: "checkPrerequisites db cache course semesterId g semesterOrder [] = Some (Inr e1, c1)" and
    q: "checkCorequisites db c1 course semesterId g semesterOrder e1 = Some (Inr e2, c2)" and
    e: "checkExclusions db c2 course x g e2 = Some (Inr (errors res), cache')"
    by blast
  have noex: "\<And>d. Exclusion d \<notin> set e2" by (rule prerequisite_errors(3)[OF p q e])
  let ?P = "getAllPlacedCourses g - {x}"
  from checkExclusions_Inr[OF e] tr excl obtain t r where
    t: "parseCourseset db c2 (Some sid) = Some (t, cache')" and
    r: "validate ?P t = Inr r" and
    sat: "satisfied r \<Longrightarrow> nullFree t \<and>
            errors res = e2 @ [Exclusion (filter (\<lambda>c. c \<in> ?P) (leafCodes t))]" and
    unsat: "\<not> satisfied r \<Longrightarrow> errors res = e2"
    by (auto split: if_splits)
  have stored: "cache' sid = Some t"
  proof -
    from parseCourseset_stored[OF t excl(2)] consider "cache' sid = Some t" | "t = NULL" by blast
    then show ?thesis
    proof cases
      case 1
      then show ?thesis .
    next
      case 2
      with r have "satisfied r" by auto
      from sat[OF this] 2 show ?thesis by simp
    qed
  qed
  have iff: "(\<exists>d. Exclusion d \<in> set (errors res)) \<longleftrightarrow> satisfied r"
    using sat unsat noex by (cases "satisfied r") auto
  have detail: "\<forall>d. Exclusion d \<in> set (errors res) \<longrightarrow>
      d = filter (\<lambda>c. c \<in> ?P) (leafCodes t)"
    using sat unsat noex by (cases "satisfied r") auto
  have cleared: "\<not> (\<exists>d. Exclusion d \<in> set (errors res'))"
    if pop: "populated t"
      and gone: "(getAllPlacedCourses g' - {x}) \<inter> set (leafCodes t) = {}"
      and ret': "validatePlacement db cache' (Code x) semesterId' g' semesterOrder' =
                   Some (Inr res', cache'')"
    for g' semesterId' semesterOrder' res' cache''
  proof -
    from validatePlacement_Inr[OF course ret'] obtain e1' c1' e2' c2' where
      p': "checkPrerequisites db cache' course semesterId' g' semesterOrder' [] =
             Some (Inr e1', c1')" and
      q': "checkCorequisites db c1' course semesterId' g' semesterOrder' e1' =
             Some (Inr e2', c2')" and
      e': "checkExclusions db c2' course x g' e2' = Some (Inr (errors res'), cache'')"
      by blast
    from checkPrerequisites_grows[OF p'] checkCorequisites_grows[OF q']
    have "cache' \<subseteq>\<^sub>m c2'" by (rule map_le_trans)
    with stored have "c2' sid = Some t" by (auto simp: map_le_def dom_def)
    then have again: "parseCourseset db c2' (Some sid) = Some (t, c2')"
      using excl(2) by (simp add: parseCourseset_cached)
    from validate_empty_unsatisfied[OF pop] obtain r0 where
      r0: "validate {} t = Inr r0" "\<not> satisfied r0" by blast
    from gone have "validate (getAllPlacedCourses g' - {x}) t = validate {} t"
      by (intro validate_cong_leaves) auto
    with r0 have v: "validate (getAllPlacedCourses g' - {x}) t = Inr r0" by simp
    from checkExclusions_Inr[OF e'] tr excl again v r0(2) have "errors res' = e2'"
      by (auto split: if_splits)
    moreover have "\<And>d. Exclusion d \<notin> set e2'" by (rule prerequisite_errors(3)[OF p' q' e'])
    ultimately show ?thesis by simp
  qed
  have rm: "\<forall>s i y. distinct (map fst g) \<and> placedOnce g \<and> slotAt g s i = Some (Code y) \<longrightarrow>
      getAllPlacedCourses (snd (removeCourse g s i)) = getAllPlacedCourses g - {y}"
    using getAllPlacedCourses_removeCourse by blast
  have cl: "populated t \<longrightarrow>
              (\<forall>g' semesterId' semesterOrder' res' cache''.
                 (getAllPlacedCourses g' - {x}) \<inter> set (leafCodes t) = {} \<and>
                 validatePlacement db cache' (Code x) semesterId' g' semesterOrder' =
                   Some (Inr res', cache'') \<longrightarrow>
                 \<not> (\<exists>d. Exclusion d \<in> set (errors res')))"
  proof (intro impI allI)
    fix g' semesterId' semesterOrder' res' cache''
    assume pop: "populated t"
      and h: "(getAllPlacedCourses g' - {x}) \<inter> set (leafCodes t) = {} \<and>
                 validatePlacement db cache' (Code x) semesterId' g' semesterOrder' =
                   Some (Inr res', cache'')"
    from h have h1: "(getAllPlacedCourses g' - {x}) \<inter> set (leafCodes t) = {}"
      and h2: "validatePlacement db cache' (Code x) semesterId' g' semesterOrder' =
                   Some (Inr res', cache'')" by simp_all
    show "\<not> (\<exists>d. Exclusion d \<in> set (errors res'))" by (rule cleared[OF pop h1 h2])
  qed
  show ?thesis
    apply (rule exI[of _ t], rule exI[of _ r])
    apply (intro conjI)
          apply (rule stored)
         apply (rule r)
        apply (rule iff)
       apply (rule detail)
      apply (rule getAllPlacedCourses_eq)
     apply (rule rm)
    apply (rule cl)
    done
qed

text \<open>The witness: one conflicting course, removed before the revalidation.\<close>

theorem validatePlacement_exclusion_witness:
  "validatePlacement
      \<lparr>courses = [''ECE430H1'' \<mapsto> \<lparr>code = ''ECE430H1'', session = ''F'',
          prerequisites = None, corequisites = None, exclusions = Some ''ECE430H1_e1''\<rparr>],
       coursesets = [''ECE430H1_e1'' \<mapsto> ''ECE530H1'']\<rparr>
      Map.empty (Code ''ECE430H1'') ''fall-1''
      [(''fall-1'', [Code ''ECE430H1'', Null, Null, Null, Null]),
       (''winter-1'', [Code ''ECE530H1'', Null, Null, Null, Null])]
      [''fall-1'', ''winter-1'']
    = Some (Inr \<lparr>valid = False, errors = [Exclusion [''ECE530H1'']]\<rparr>,
            [''ECE430H1_e1'' \<mapsto> COURSE ''ECE530H1''])
   \<and> snd (removeCourse [(''fall-1'', [Code ''ECE430H1'', Null, Null, Null, Null]),
                         (''winter-1'', [Code ''ECE530H1'', Null, Null, Null, Null])]
             ''winter-1'' 0)
      = [(''fall-1'', [Code ''ECE430H1'', Null, Null, Null, Null]),
         (''winter-1'', [Null, Null, Null, Null, Null])]
   \<and> validatePlacement
      \<lparr>courses = [''ECE430H1'' \<mapsto> \<lparr>code = ''ECE430H1'', session = ''F'',
          prerequisites = None, corequisites = None, exclusions = Some ''ECE430H1_e1''\<rparr>],
       coursesets = [''ECE430H1_e1'' \<mapsto> ''ECE530H1'']\<rparr>
      [''ECE430H1_e1'' \<mapsto> COURSE ''ECE530H1''] (Code ''ECE430H1'') ''fall-1''
      [(''fall-1'', [Code ''ECE430H1'', Null, Null, Null, Null]),
       (''winter-1'', [Null, Null, Null, Null, Null])]
      [''fall-1'', ''winter-1'']
    = Some (Inr \<lparr>valid = True, errors = []\<rparr>, [''ECE430H1_e1'' \<mapsto> COURSE ''ECE530H1''])
   \<and> \<not> (\<exists>d. Exclusion d \<in> set (errors \<lparr>valid = True, errors = []\<rparr>))"
proof -
  let ?course = "\<lparr>code = ''ECE430H1'', session = ''F'',
          prerequisites = None, corequisites = None, exclusions = Some ''ECE430H1_e1''\<rparr>"
  let ?db = "\<lparr>courses = [''ECE430H1'' \<mapsto> ?course],
       coursesets = [''ECE430H1_e1'' \<mapsto> ''ECE530H1'']\<rparr>"
  let ?g = "[(''fall-1'', [Code ''ECE430H1'', Null, Null, Null, Null]),
       (''winter-1'', [Code ''ECE530H1'', Null, Null, Null, Null])]"
  let ?g' = "[(''fall-1'', [Code ''ECE430H1'', Null, Null, Null, Null]),
       (''winter-1'', [Null, Null, Null, Null, Null])]"
  let ?order = "[''fall-1'', ''winter-1'']"
  let ?c = "[''ECE430H1_e1'' \<mapsto> COURSE ''ECE530H1'']"
  let ?res = "\<lparr>valid = False, errors = [Exclusion [''ECE530H1'']]\<rparr>"
  let ?res' = "\<lparr>valid = True, errors = ([] :: placementError list)\<rparr>"
  have f: "trim ''ECE530H1'' = ''ECE530H1''" "\<not> includesStr (trim ''ECE530H1'') '' & ''"
    "\<not> includesStr (trim ''ECE530H1'') '' / ''" "\<not> isCoursesetRef (trim ''ECE530H1'')"
    by code_simp+
  have p: "parseCourseset ?db Map.empty (Some ''ECE430H1_e1'') = Some (COURSE ''ECE530H1'', ?c)"
    using parseCourseset_single_course[of "''ECE430H1_e1''" Map.empty ?db "''ECE530H1''"] f
    by simp
  have p': "parseCourseset ?db ?c (Some ''ECE430H1_e1'') = Some (COURSE ''ECE530H1'', ?c)"
    by (simp add: parseCourseset_cached)
  have placed: "getAllPlacedCourses ?g = {''ECE430H1'', ''ECE530H1''}"
    "getAllPlacedCourses ?g' = {''ECE430H1''}"
    by (auto simp: getAllPlacedCourses_def)
  have course: "courses ?db ''ECE430H1'' = Some ?course" by simp
  have excl: "exclusions ?course = Some ''ECE430H1_e1''" "''ECE430H1_e1'' \<noteq> []" by simp_all
  have ret: "validatePlacement ?db Map.empty (Code ''ECE430H1'') ''fall-1'' ?g ?order =
      Some (Inr ?res, ?c)"
    by (simp add: validatePlacement_def andThen_def checkPrerequisites_def
        checkCorequisites_def checkExclusions_def truthyId_def p placed Let_def)
  have rm: "snd (removeCourse ?g ''winter-1'' 0) = ?g'"
    by (simp add: removeCourse_def writeSlot_def)
  have ret': "validatePlacement ?db ?c (Code ''ECE430H1'') ''fall-1'' ?g' ?order =
      Some (Inr ?res', ?c)"
    by (simp add: validatePlacement_def andThen_def checkPrerequisites_def
        checkCorequisites_def checkExclusions_def truthyId_def p' placed Let_def)
  from validatePlacement_exclusion[OF course excl ret] obtain t r where
    T: "?c ''ECE430H1_e1'' = Some t \<and>
        validate (getAllPlacedCourses ?g - {''ECE430H1''}) t = Inr r \<and>
        ((\<exists>d. Exclusion d \<in> set (errors ?res)) \<longleftrightarrow> satisfied r) \<and>
        (\<forall>d. Exclusion d \<in> set (errors ?res) \<longrightarrow>
           d = filter (\<lambda>c. c \<in> getAllPlacedCourses ?g - {''ECE430H1''}) (leafCodes t)) \<and>
        getAllPlacedCourses ?g = {c. c \<noteq> [] \<and> (\<exists>(s, slots) \<in> set ?g. Code c \<in> set slots)} \<and>
        (\<forall>s i y. distinct (map fst ?g) \<and> placedOnce ?g \<and> slotAt ?g s i = Some (Code y) \<longrightarrow>
           getAllPlacedCourses (snd (removeCourse ?g s i)) = getAllPlacedCourses ?g - {y}) \<and>
        (populated t \<longrightarrow>
              (\<forall>g' semesterId' semesterOrder' res' cache''.
                 (getAllPlacedCourses g' - {''ECE430H1''}) \<inter> set (leafCodes t) = {} \<and>
                 validatePlacement ?db ?c (Code ''ECE430H1'') semesterId' g' semesterOrder' =
                   Some (Inr res', cache'') \<longrightarrow>
                 \<not> (\<exists>d. Exclusion d \<in> set (errors res'))))"
    by (elim exE)
  from T have t: "?c ''ECE430H1_e1'' = Some t" by (rule conjunct1)
  note cl = T[THEN conjunct2, THEN conjunct2, THEN conjunct2, THEN conjunct2, THEN conjunct2,
      THEN conjunct2]
  from t have t': "t = COURSE ''ECE530H1''" by simp
  then have pop: "populated t" by simp
  have gone: "(getAllPlacedCourses ?g' - {''ECE430H1''}) \<inter> set (leafCodes t) = {}"
    unfolding t' placed by simp
  from cl[rule_format, OF pop, of ?g' "''fall-1''" ?order ?res' ?c] gone ret'
  have "\<not> (\<exists>d. Exclusion d \<in> set (errors ?res'))" by (simp only: simp_thms)
  with ret rm ret' show ?thesis by (intro conjI)
qed

text \<open>
  Claim C2 as stated fails when two excluded courses are placed: after one conflicting
  course is removed, the revalidation still reports the Exclusion error, for the other.
\<close>

theorem validatePlacement_exclusion_counterexample:
  "validatePlacement
      \<lparr>courses = [''ECE430H1'' \<mapsto> \<lparr>code = ''ECE430H1'', session = ''F'',
          prerequisites = None, corequisites = None, exclusions = Some ''ECE430H1_e1''\<rparr>],
       coursesets = [''ECE430H1_e1'' \<mapsto> ''ECE530H1 / ECE431H1'']\<rparr>
      Map.empty (Code ''ECE430H1'') ''fall-1''
      [(''fall-1'', [Code ''ECE430H1'', Code ''ECE530H1'', Code ''ECE431H1'', Null, Null])]
      [''fall-1'']
    = Some (Inr \<lparr>valid = False, errors = [Exclusion [''ECE530H1'', ''ECE431H1'']]\<rparr>,
            [''ECE430H1_e1'' \<mapsto> OR [COURSE ''ECE530H1'', COURSE ''ECE431H1'']])
   \<and> snd (removeCourse
        [(''fall-1'', [Code ''ECE430H1'', Code ''ECE530H1'', Code ''ECE431H1'', Null, Null])]
        ''fall-1'' 1)
      = [(''fall-1'', [Code ''ECE430H1'', Null, Code ''ECE431H1'', Null, Null])]
   \<and> validatePlacement
      \<lparr>courses = [''ECE430H1'' \<mapsto> \<lparr>code = ''ECE430H1'', session = ''F'',
          prerequisites = None, corequisites = None, exclusions = Some ''ECE430H1_e1''\<rparr>],
       coursesets = [''ECE430H1_e1'' \<mapsto> ''ECE530H1 / ECE431H1'']\<rparr>
      [''ECE430H1_e1'' \<mapsto> OR [COURSE ''ECE530H1'', COURSE ''ECE431H1'']]
      (Code ''ECE430H1'') ''fall-1''
      [(''fall-1'', [Code ''ECE430H1'', Null, Code ''ECE431H1'', Null, Null])]
      [''fall-1'']
    = Some (Inr \<lparr>valid = False, errors = [Exclusion [''ECE431H1'']]\<rparr>,
            [''ECE430H1_e1'' \<mapsto> OR [COURSE ''ECE530H1'', COURSE ''ECE431H1'']])"
proof -
  let ?course = "\<lparr>code = ''ECE430H1'', session = ''F'',
          prerequisites = None, corequisites = None, exclusions = Some ''ECE430H1_e1''\<rparr>"
  let ?db = "\<lparr>courses = [''ECE430H1'' \<mapsto> ?course],
       coursesets = [''ECE430H1_e1'' \<mapsto> ''ECE530H1 / ECE431H1'']\<rparr>"
  let ?g = "[(''fall-1'', [Code ''ECE430H1'', Code ''ECE530H1'', Code ''ECE431H1'', Null, Null])]"
  let ?g' = "[(''fall-1'', [Code ''ECE430H1'', Null, Code ''ECE431H1'', Null, Null])]"
  let ?t = "OR [COURSE ''ECE530H1'', COURSE ''ECE431H1'']"
  let ?c = "[''ECE430H1_e1'' \<mapsto> ?t]"
  have f: "\<not> includesStr (trim ''ECE530H1 / ECE431H1'') '' & ''"
    "includesStr (trim ''ECE530H1 / ECE431H1'') '' / ''"
    "map trim (splitStr (trim ''ECE530H1 / ECE431H1'') '' / '') = [''ECE530H1'', ''ECE431H1'']"
    "\<not> isCoursesetRef ''ECE530H1''" "\<not> isCoursesetRef ''ECE431H1''"
    by code_simp+
  have p: "parseCourseset ?db Map.empty (Some ''ECE430H1_e1'') = Some (?t, ?c)"
    using f by (simp add: parseCourseset.simps[of ?db Map.empty "Some ''ECE430H1_e1''"]
        parseExpression_of_def parseToken_of_def)
  have p': "parseCourseset ?db ?c (Some ''ECE430H1_e1'') = Some (?t, ?c)"
    by (simp add: parseCourseset_cached)
  have placed: "getAllPlacedCourses ?g = {''ECE430H1'', ''ECE530H1'', ''ECE431H1''}"
    "getAllPlacedCourses ?g' = {''ECE430H1'', ''ECE431H1''}"
    by (auto simp: getAllPlacedCourses_def)
  have ret: "validatePlacement ?db Map.empty (Code ''ECE430H1'') ''fall-1'' ?g [''fall-1''] =
      Some (Inr \<lparr>valid = False, errors = [Exclusion [''ECE530H1'', ''ECE431H1'']]\<rparr>, ?c)"
    by (simp add: validatePlacement_def andThen_def checkPrerequisites_def
        checkCorequisites_def checkExclusions_def truthyId_def p placed Let_def)
  have rm: "snd (removeCourse ?g ''fall-1'' 1) = ?g'"
    by (simp add: removeCourse_def writeSlot_def)
  have ret': "validatePlacement ?db ?c (Code ''ECE430H1'') ''fall-1'' ?g' [''fall-1''] =
      Some (Inr \<lparr>valid = False, errors = [Exclusion [''ECE431H1'']]\<rparr>, ?c)"
    by (simp add: validatePlacement_def andThen_def checkPrerequisites_def
        checkCorequisites_def checkExclusions_def truthyId_def p' placed Let_def)
  from ret rm ret' show ?thesis by (intro conjI)
qed

end
